theory Spec2Isabelle
  imports Complex_Main
begin

section \<open>Strings, characters and errors\<close>

text \<open>
  A Python \<^verbatim>\<open>str\<close> is a sequence of Unicode code points; the plate alphabet is
  Cyrillic, so a string is a list of code points (\<open>nat\<close>), not of bytes.  \<open>str\<close>
  turns an ASCII literal into that representation.
\<close>

type_synonym ustring = "nat list"

definition str :: "string \<Rightarrow> ustring" where
  "str s = map of_char s"

text \<open>
  The character tables of the Python runtime (\<^verbatim>\<open>str.upper\<close>, \<^verbatim>\<open>str.isalpha\<close>,
  \<^verbatim>\<open>str.isdigit\<close>, the class \<^verbatim>\<open>\d\<close> of \<^verbatim>\<open>re\<close>) are fixed here on ASCII; what they
  do on the code points from 128 on is data of the interpreter's Unicode database, which
  is a parameter of the model.
\<close>

record unicode_db =
  uc_upper :: "nat \<Rightarrow> ustring"
  uc_alpha :: "nat \<Rightarrow> bool"
  uc_digit :: "nat \<Rightarrow> bool"
  uc_decimal :: "nat \<Rightarrow> bool"

definition ascii_upper :: "nat \<Rightarrow> nat" where
  "ascii_upper c = (if 97 \<le> c \<and> c \<le> 122 then c - 32 else c)"

definition upper :: "unicode_db \<Rightarrow> ustring \<Rightarrow> ustring" where
  "upper U s = concat (map (\<lambda>c. if c < 128 then [ascii_upper c] else uc_upper U c) s)"

definition isalpha :: "unicode_db \<Rightarrow> nat \<Rightarrow> bool" where
  "isalpha U c =
     (if c < 128 then (65 \<le> c \<and> c \<le> 90) \<or> (97 \<le> c \<and> c \<le> 122) else uc_alpha U c)"

definition isdigit :: "unicode_db \<Rightarrow> nat \<Rightarrow> bool" where
  "isdigit U c = (if c < 128 then 48 \<le> c \<and> c \<le> 57 else uc_digit U c)"

definition re_digit :: "unicode_db \<Rightarrow> nat \<Rightarrow> bool" where
  "re_digit U c = (if c < 128 then 48 \<le> c \<and> c \<le> 57 else uc_decimal U c)"

text \<open>A database that knows nothing beyond ASCII, for evaluating ASCII and plate inputs.\<close>

definition ascii_db :: unicode_db where
  "ascii_db = \<lparr>uc_upper = (\<lambda>c. [c]), uc_alpha = (\<lambda>c. False),
               uc_digit = (\<lambda>c. False), uc_decimal = (\<lambda>c. False)\<rparr>"

text \<open>
  \<^verbatim>\<open>s.replace(old, new)\<close> for a one-character \<open>old\<close>, the only way the repository calls
  it; \<^verbatim>\<open>s.split(sep)\<close> for a one-character separator.
\<close>

definition replace1 :: "nat \<Rightarrow> ustring \<Rightarrow> ustring \<Rightarrow> ustring" where
  "replace1 old new s = concat (map (\<lambda>c. if c = old then new else [c]) s)"

fun split_on :: "nat \<Rightarrow> ustring \<Rightarrow> ustring list" where
  "split_on sep [] = [[]]"
| "split_on sep (c # cs) =
     (if c = sep then [] # split_on sep cs
      else (case split_on sep cs of [] \<Rightarrow> [[c]] | l # ls \<Rightarrow> (c # l) # ls))"

type_synonym path = "ustring list"

definition path_name :: "path \<Rightarrow> ustring" where
  "path_name p = (case p of [] \<Rightarrow> [] | _ # _ \<Rightarrow> last p)"

datatype error =
  ValueError path | ZeroDivisionError | Cv2Error | TesseractError | UnicodeEncodeError

section \<open>Floating-point arithmetic of the ratios\<close>

text \<open>
  A finite \<^verbatim>\<open>float\<close> is the rational number it denotes.  Every arithmetic result is
  rounded to the nearest number with a 53-bit significand, ties to the even significand
  (IEEE 754 binary64); the exponent is unbounded, so overflow and subnormal numbers are
  outside the model (the quantities are image dimensions times ratios).  \<open>expo x\<close> is the
  binary exponent of \<open>x\<close>: \<open>2 ^ expo x \<le> x < 2 ^ (expo x + 1)\<close>.
\<close>

definition rhe :: "rat \<Rightarrow> int" where
  "rhe x = (let f = \<lfloor>x\<rfloor>; d = x - of_int f in
     if d < 1 / 2 then f else if 1 / 2 < d then f + 1 else if even f then f else f + 1)"

function expo :: "rat \<Rightarrow> int" where
  "expo x = (if x \<le> 0 then 0 else if x < 1 then expo (2 * x) - 1
             else if 2 \<le> x then expo (x / 2) + 1 else 0)"
  by pat_completeness auto
termination
proof (relation "measure (\<lambda>x. if x < 1 then nat \<lceil>1 / x\<rceil> + 1 else nat \<lfloor>x\<rfloor>)")
  show "wf (measure (\<lambda>x::rat. if x < 1 then nat \<lceil>1 / x\<rceil> + 1 else nat \<lfloor>x\<rfloor>))"
    by simp
next
  fix x :: rat assume a: "\<not> x \<le> 0" "x < 1"
  have "1 < 1 / x" using a by simp
  then have c2: "2 \<le> \<lceil>1 / x\<rceil>" by linarith
  show "(2 * x, x) \<in> measure (\<lambda>x. if x < 1 then nat \<lceil>1 / x\<rceil> + 1 else nat \<lfloor>x\<rfloor>)"
  proof (cases "2 * x < 1")
    case True
    then have "2 < 1 / x" using a by (simp add: field_simps)
    then have "1 / (2 * x) \<le> 1 / x - 1" by (simp add: field_simps)
    then have "\<lceil>1 / (2 * x)\<rceil> \<le> \<lceil>1 / x - 1\<rceil>" by (rule ceiling_mono)
    then have "\<lceil>1 / (2 * x)\<rceil> < \<lceil>1 / x\<rceil>" by simp
    with True a c2 show ?thesis by simp
  next
    case False
    have "\<lfloor>2 * x\<rfloor> \<le> 1" using a by linarith
    then have "nat \<lfloor>2 * x\<rfloor> < Suc (nat \<lceil>1 / x\<rceil>)" using c2 by linarith
    with False a show ?thesis by simp
  qed
next
  fix x :: rat assume a: "\<not> x \<le> 0" "\<not> x < 1" "2 \<le> x"
  have "x / 2 \<le> x - 1" using a by simp
  then have "\<lfloor>x / 2\<rfloor> \<le> \<lfloor>x - 1\<rfloor>" by (rule floor_mono)
  moreover have "2 \<le> \<lfloor>x\<rfloor>" using a by linarith
  ultimately show
    "(x / 2, x) \<in> measure (\<lambda>x. if x < 1 then nat \<lceil>1 / x\<rceil> + 1 else nat \<lfloor>x\<rfloor>)"
    using a by simp
qed

declare expo.simps [simp del]

definition round_pos :: "rat \<Rightarrow> rat" where
  "round_pos x = (let q = power_int 2 (expo x - 52) in of_int (rhe (x / q)) * q)"

definition round_double :: "rat \<Rightarrow> rat" where
  "round_double x =
     (if x = 0 then 0 else if 0 < x then round_pos x else - round_pos (- x))"

text \<open>
  The Python operations on them: \<^verbatim>\<open>float(n)\<close>, \<^verbatim>\<open>x * y\<close>, the true division \<^verbatim>\<open>a / b\<close> of
  two integers (its caller raises on \<open>b = 0\<close>), and \<^verbatim>\<open>int(x)\<close>, which truncates towards zero.
\<close>

definition int_to_float :: "int \<Rightarrow> rat" where
  "int_to_float n = round_double (of_int n)"

definition float_mul :: "rat \<Rightarrow> rat \<Rightarrow> rat" where
  "float_mul x y = round_double (x * y)"

definition int_truediv :: "int \<Rightarrow> int \<Rightarrow> rat" where
  "int_truediv a b = round_double (of_int a / of_int b)"

definition py_int :: "rat \<Rightarrow> int" where
  "py_int x = (if 0 \<le> x then \<lfloor>x\<rfloor> else \<lceil>x\<rceil>)"

text \<open>
  Beyond the double range the result of an operation is an infinity, and \<^verbatim>\<open>int\<close> of an
  infinity raises \<^verbatim>\<open>OverflowError\<close>.  The model has no infinities: it describes the code
  where the rounded results are finite doubles, that is below \<open>2 ^ 1024\<close> in magnitude.
\<close>

definition double_finite :: "rat \<Rightarrow> bool" where
  "double_finite x = (\<bar>x\<bar> < 2 ^ 1024)"

section \<open>Images, settings and the external collaborators\<close>

text \<open>
  A pixel buffer (\<^verbatim>\<open>numpy.ndarray\<close>) is its list of rows, its width (kept apart, so that a
  buffer of zero rows still has one) and the number of its dimensions: 2 for a luminance
  image, 3 for a colour one.  The pixel type is left open.
\<close>

record 'px ndarray =
  img_rows :: "'px list list"
  img_width :: nat
  img_ndim :: nat

definition shape0 :: "'px ndarray \<Rightarrow> nat" where
  "shape0 img = length (img_rows img)"

definition shape1 :: "'px ndarray \<Rightarrow> nat" where
  "shape1 img = img_width img"

text \<open>
  \<^verbatim>\<open>xs[start:stop]\<close>: a negative bound counts from the end, and every bound is clamped to
  the length; nothing is raised.
\<close>

definition slice_index :: "nat \<Rightarrow> int \<Rightarrow> nat" where
  "slice_index n i = (if i < 0 then nat (max (i + int n) 0) else min (nat i) n)"

definition py_slice :: "'a list \<Rightarrow> int \<Rightarrow> int \<Rightarrow> 'a list" where
  "py_slice xs start stop =
     (let a = slice_index (length xs) start; b = slice_index (length xs) stop
      in take (b - a) (drop a xs))"

record settings =
  input_dir :: path
  output_file :: path
  tesseract_lang :: string
  tesseract_psm :: nat
  clahe_clip_limit :: rat
  clahe_tile_size :: nat
  min_image_height :: int
  upscale_method :: string
  reg_number_region_start :: rat
  reg_number_region_end :: rat
  vin_region_start :: rat
  vin_region_end :: rat
  body_number_region_start :: rat
  body_number_region_end :: rat
  vin_length :: int
  min_reg_number_length :: int
  max_reg_number_length :: int

text \<open>The defaults of \<^verbatim>\<open>Settings\<close>; a decimal literal denotes the double nearest to it.\<close>

definition default_settings :: settings where
  "default_settings =
     \<lparr>input_dir = [str ''data'', str ''input''],
      output_file = [str ''data'', str ''output'', str ''results.json''],
      tesseract_lang = ''eng'',
      tesseract_psm = 6,
      clahe_clip_limit = 2,
      clahe_tile_size = 8,
      min_image_height = 800,
      upscale_method = ''cubic'',
      reg_number_region_start = round_double (15 / 100),
      reg_number_region_end = round_double (30 / 100),
      vin_region_start = round_double (25 / 100),
      vin_region_end = round_double (60 / 100),
      body_number_region_start = round_double (52 / 100),
      body_number_region_end = round_double (68 / 100),
      vin_length = 17,
      min_reg_number_length = 8,
      max_reg_number_length = 10\<rparr>"

datatype interpolation = INTER_LINEAR | INTER_CUBIC | INTER_LANCZOS4

text \<open>
  The collaborators outside the repository: the image codec (\<^verbatim>\<open>cv2.imread\<close>, \<open>None\<close> for an
  unreadable file), the interpolation kernel of \<^verbatim>\<open>cv2.resize\<close> (the pixel it puts at row
  \<open>y\<close>, column \<open>x\<close> of the output), the luminance conversion, the adaptive contrast
  equalisation for a clip limit and a tile size, the OCR engine, called with an image,
  a language and a page-segmentation mode, and the standard output, to which the batch
  loop prints a message made of a file name and an exception (\<open>None\<close> when the message was
  written, the exception raised by \<^verbatim>\<open>print\<close> otherwise).  Each may fail with an exception.
\<close>

record 'px extern =
  x_imread :: "path \<Rightarrow> 'px ndarray option"
  x_resize_px :: "interpolation \<Rightarrow> 'px ndarray \<Rightarrow> nat \<Rightarrow> nat \<Rightarrow> nat \<Rightarrow> nat \<Rightarrow> 'px"
  x_cvtColor :: "'px ndarray \<Rightarrow> error + 'px ndarray"
  x_clahe :: "rat \<Rightarrow> nat \<Rightarrow> 'px ndarray \<Rightarrow> error + 'px ndarray"
  x_ocr :: "'px ndarray \<Rightarrow> string \<Rightarrow> nat \<Rightarrow> error + ustring"
  x_print :: "ustring \<Rightarrow> error \<Rightarrow> error option"

text \<open>
  \<^verbatim>\<open>cv2.resize(image, (new_w, new_h), interpolation=method)\<close>: the output has \<open>new_h\<close> rows
  of \<open>new_w\<close> pixels; an empty source or an empty target size is an error of the library.
\<close>

definition cv2_resize ::
  "'px extern \<Rightarrow> 'px ndarray \<Rightarrow> int \<Rightarrow> int \<Rightarrow> interpolation \<Rightarrow> error + 'px ndarray" where
  "cv2_resize X img new_w new_h method =
     (if shape0 img = 0 \<or> shape1 img = 0 \<or> new_w \<le> 0 \<or> new_h \<le> 0 then Inl Cv2Error
      else Inr \<lparr>img_rows =
                  map (\<lambda>y. map (\<lambda>x. x_resize_px X method img (nat new_w) (nat new_h) y x)
                              [0..<nat new_w])
                      [0..<nat new_h],
                img_width = nat new_w,
                img_ndim = img_ndim img\<rparr>)"

section \<open>The preprocessor\<close>

text \<open>
  \<open>extract_region\<close> computes \<^verbatim>\<open>int(height * ratio)\<close> twice and slices.  It describes the code
  where both products are finite doubles (\<open>double_finite\<close>); where a product overflows, the
  code raises \<^verbatim>\<open>OverflowError\<close>, which this function does not model.
\<close>

definition extract_region :: "'px ndarray \<Rightarrow> rat \<Rightarrow> rat \<Rightarrow> 'px ndarray" where
  "extract_region img start_ratio end_ratio =
     (let height = int (shape0 img);
          start_y = py_int (float_mul (int_to_float height) start_ratio);
          end_y = py_int (float_mul (int_to_float height) end_ratio)
      in img\<lparr>img_rows := py_slice (img_rows img) start_y end_y\<rparr>)"

definition interpolation_methods :: "string \<Rightarrow> interpolation" where
  "interpolation_methods m =
     (if m = ''linear'' then INTER_LINEAR
      else if m = ''cubic'' then INTER_CUBIC
      else if m = ''lanczos'' then INTER_LANCZOS4
      else INTER_CUBIC)"

definition upscale_if_needed ::
  "'px extern \<Rightarrow> settings \<Rightarrow> 'px ndarray \<Rightarrow> error + 'px ndarray" where
  "upscale_if_needed X S img =
     (let height = int (shape0 img); min_height = min_image_height S in
      if min_height \<le> height then Inr img
      else if height = 0 then Inl ZeroDivisionError
      else
        (let scale = int_truediv min_height height;
             new_width = py_int (float_mul (int_to_float (int (shape1 img))) scale);
             new_height = py_int (float_mul (int_to_float height) scale);
             method = interpolation_methods (upscale_method S)
         in cv2_resize X img new_width new_height method))"

definition to_gray :: "'px extern \<Rightarrow> 'px ndarray \<Rightarrow> error + 'px ndarray" where
  "to_gray X img = (if img_ndim img = 3 then x_cvtColor X img else Inr img)"

definition enhance_contrast ::
  "'px extern \<Rightarrow> settings \<Rightarrow> 'px ndarray \<Rightarrow> error + 'px ndarray" where
  "enhance_contrast X S img =
     (case to_gray X img of
        Inl e \<Rightarrow> Inl e
      | Inr gray \<Rightarrow> x_clahe X (clahe_clip_limit S) (clahe_tile_size S) gray)"

text \<open>
  The substitution table, in the order of the dictionary literal, and the normaliser,
  which replaces one key after the other over the whole text.
\<close>

definition char_map :: "(nat \<times> nat) list" where
  "char_map =
     [(79, 1054), (111, 1086), (48, 1054),
      (66, 1042), (98, 1074),
      (65, 1040), (97, 1072),
      (69, 1045), (101, 1077),
      (75, 1050), (107, 1082),
      (77, 1052), (109, 1084),
      (72, 1053), (104, 1085),
      (80, 1056), (112, 1088),
      (67, 1057), (99, 1089),
      (84, 1058), (116, 1090),
      (89, 1059), (121, 1091),
      (88, 1061), (120, 1093)]"

definition normalize_to_cyrillic :: "ustring \<Rightarrow> ustring" where
  "normalize_to_cyrillic text =
     foldl (\<lambda>t (lat, cyr). replace1 lat [cyr] t) text char_map"

text \<open>
  For the statements about it: the value the table documents for a character (the character
  itself when it is no key), and the Cyrillic block of Unicode.
\<close>

definition table_value :: "(nat \<times> nat) list \<Rightarrow> nat \<Rightarrow> nat" where
  "table_value kvs c = (case map_of kvs c of None \<Rightarrow> c | Some v \<Rightarrow> v)"

definition cyrillic :: "nat \<Rightarrow> bool" where
  "cyrillic c = (1024 \<le> c \<and> c \<le> 1279)"

section \<open>The parser: patterns\<close>

text \<open>
  \<^verbatim>\<open>REG_NUMBER_PATTERN\<close>: a letter of the plate set, three digits, two letters, two or three
  digits.  \<open>reg_number_match\<close> is \<^verbatim>\<open>REG_NUMBER_PATTERN.match\<close>: the match at the start of
  the string, the last group greedy.  \<open>reg_number_findall\<close> is \<^verbatim>\<open>findall\<close>: the matches
  from left to right, each search resuming where the previous match ended.
\<close>

definition plate_letters :: "nat list" where
  "plate_letters = [1040, 1042, 1045, 1050, 1052, 1053, 1054, 1056, 1057, 1058, 1059, 1061]"

definition plate_letter :: "nat \<Rightarrow> bool" where
  "plate_letter c = (c \<in> set plate_letters)"

definition reg_number_match :: "unicode_db \<Rightarrow> ustring \<Rightarrow> ustring option" where
  "reg_number_match U s =
     (if 8 \<le> length s \<and> plate_letter (s ! 0)
         \<and> re_digit U (s ! 1) \<and> re_digit U (s ! 2) \<and> re_digit U (s ! 3)
         \<and> plate_letter (s ! 4) \<and> plate_letter (s ! 5)
         \<and> re_digit U (s ! 6) \<and> re_digit U (s ! 7)
      then Some (take (if 9 \<le> length s \<and> re_digit U (s ! 8) then 9 else 8) s)
      else None)"

function reg_number_findall :: "unicode_db \<Rightarrow> ustring \<Rightarrow> ustring list" where
  "reg_number_findall U s =
     (if s = [] then []
      else (case reg_number_match U s of
              None \<Rightarrow> reg_number_findall U (tl s)
            | Some m \<Rightarrow> m # reg_number_findall U (drop (length m) s)))"
  by pat_completeness auto
termination
proof (relation "measure (\<lambda>(U, s). length s)")
  show "wf (measure (\<lambda>(U :: unicode_db, s :: ustring). length s))" by simp
next
  fix U :: unicode_db and s :: ustring
  assume "s \<noteq> []"
  then show "((U, tl s), (U, s)) \<in> measure (\<lambda>(U, s). length s)" by simp
next
  fix U :: unicode_db and s m :: ustring
  assume "s \<noteq> []" and "reg_number_match U s = Some m"
  then have "0 < length m"
    by (auto simp: reg_number_match_def split: if_splits)
  with \<open>s \<noteq> []\<close> show "((U, drop (length m) s), (U, s)) \<in> measure (\<lambda>(U, s). length s)"
    by simp
qed

declare reg_number_findall.simps [simp del]


text \<open>
  \<^verbatim>\<open>VIN_PATTERN\<close> is seventeen characters of \<^verbatim>\<open>[A-HJ-NPR-Z0-9]\<close>; \<^verbatim>\<open>match\<close> anchors it at
  the start of the string only.
\<close>

definition vin_char :: "nat \<Rightarrow> bool" where
  "vin_char c =
     ((65 \<le> c \<and> c \<le> 72) \<or> (74 \<le> c \<and> c \<le> 78) \<or> c = 80 \<or> (82 \<le> c \<and> c \<le> 90)
      \<or> (48 \<le> c \<and> c \<le> 57))"

definition VIN_PATTERN_match :: "ustring \<Rightarrow> bool" where
  "VIN_PATTERN_match s = (17 \<le> length s \<and> list_all vin_char (take 17 s))"

section \<open>The parser: plate extraction\<close>

definition run_ocr :: "'px extern \<Rightarrow> settings \<Rightarrow> 'px ndarray \<Rightarrow> nat option \<Rightarrow> error + ustring" where
  "run_ocr X S img psm =
     x_ocr X img (tesseract_lang S)
       (case psm of None \<Rightarrow> tesseract_psm S
        | Some p \<Rightarrow> if p = 0 then tesseract_psm S else p)"

text \<open>
  The fallback search, line by line; \<open>cyr_upper_or_digit\<close> is the character class of the
  capital Cyrillic letters (code points 1040 to 1071) and the ASCII digits.
\<close>

definition cyr_upper :: "nat \<Rightarrow> bool" where
  "cyr_upper c = (1040 \<le> c \<and> c \<le> 1071)"

definition cyr_upper_or_digit :: "nat \<Rightarrow> bool" where
  "cyr_upper_or_digit c = (cyr_upper c \<or> (48 \<le> c \<and> c \<le> 57))"

fun fallback_lines :: "unicode_db \<Rightarrow> settings \<Rightarrow> ustring list \<Rightarrow> ustring option" where
  "fallback_lines U S [] = None"
| "fallback_lines U S (line # lines) =
     (let cleaned = filter cyr_upper_or_digit line;
          has_letters = list_ex cyr_upper cleaned;
          has_digits = list_ex (re_digit U) cleaned;
          letter_count = length (filter (isalpha U) cleaned);
          digit_count = length (filter (isdigit U) cleaned)
      in if min_reg_number_length S \<le> int (length cleaned)
            \<and> int (length cleaned) \<le> max_reg_number_length S
            \<and> has_letters \<and> has_digits
            \<and> 3 \<le> letter_count \<and> letter_count \<le> 4 \<and> 4 \<le> digit_count \<and> digit_count \<le> 6
         then Some cleaned
         else fallback_lines U S lines)"

text \<open>\<open>extract_reg_number\<close> from the OCR text on, and the whole of it.\<close>

definition reg_number_of_text :: "unicode_db \<Rightarrow> settings \<Rightarrow> ustring \<Rightarrow> ustring option" where
  "reg_number_of_text U S text =
     (let normalized = normalize_to_cyrillic (upper U text);
          matches = reg_number_findall U normalized
      in case matches of
           m # _ \<Rightarrow> Some (replace1 10 [] (replace1 32 [] m))
         | [] \<Rightarrow> fallback_lines U S (split_on 10 normalized))"

definition extract_reg_number ::
  "'px extern \<Rightarrow> unicode_db \<Rightarrow> settings \<Rightarrow> 'px ndarray \<Rightarrow> error + ustring option" where
  "extract_reg_number X U S img =
     (let height = int (shape0 img);
          region = extract_region img (reg_number_region_start S) (reg_number_region_end S)
      in case (if height < min_image_height S then upscale_if_needed X S region
               else Inr region) of
           Inl e \<Rightarrow> Inl e
         | Inr region' \<Rightarrow>
             (case enhance_contrast X S region' of
                Inl e \<Rightarrow> Inl e
              | Inr processed \<Rightarrow>
                  (case run_ocr X S processed None of
                     Inl e \<Rightarrow> Inl e
                   | Inr text \<Rightarrow> Inr (reg_number_of_text U S text))))"

section \<open>The parser: VIN extraction\<close>

text \<open>
  The cleaning \<^verbatim>\<open>re.sub(r'[^A-Z0-9]', '', text)\<close>, the seventeen-character windows
  \<^verbatim>\<open>cleaned[i:i + 17]\<close> for \<open>i\<close> in \<^verbatim>\<open>range(len(cleaned) - 16)\<close>, and the windows kept: those
  that pass the pattern.
\<close>

definition upper_or_digit :: "nat \<Rightarrow> bool" where
  "upper_or_digit c = ((65 \<le> c \<and> c \<le> 90) \<or> (48 \<le> c \<and> c \<le> 57))"

definition strip_non_alnum :: "ustring \<Rightarrow> ustring" where
  "strip_non_alnum text = filter upper_or_digit text"

definition windows17 :: "ustring \<Rightarrow> ustring list" where
  "windows17 cleaned = map (\<lambda>i. take 17 (drop i cleaned)) [0..<length cleaned - 16]"

definition window_candidates :: "ustring \<Rightarrow> ustring list" where
  "window_candidates cleaned = filter VIN_PATTERN_match (windows17 cleaned)"

definition text_candidates :: "unicode_db \<Rightarrow> ustring \<Rightarrow> ustring list" where
  "text_candidates U text = window_candidates (strip_non_alnum (upper U text))"

text \<open>
  One OCR pass either raised or returned a text.  The passes are collected in order; a
  pass that raised adds nothing (\<^verbatim>\<open>except Exception: pass\<close>).
\<close>

definition collect_candidates :: "unicode_db \<Rightarrow> (error + ustring) list \<Rightarrow> ustring list" where
  "collect_candidates U outcomes =
     foldl (\<lambda>candidates r. case r of Inl e \<Rightarrow> candidates
                             | Inr text \<Rightarrow> candidates @ text_candidates U text)
           [] outcomes"

text \<open>
  The two structural tests: \<^verbatim>\<open>s[0].isalpha()\<close> (a candidate is never empty, so the index
  never fails) and the number of digits in \<^verbatim>\<open>s[9:17]\<close>.
\<close>

definition first_isalpha :: "unicode_db \<Rightarrow> ustring \<Rightarrow> bool" where
  "first_isalpha U s = (case s of [] \<Rightarrow> False | c # _ \<Rightarrow> isalpha U c)"

definition serial_digits :: "unicode_db \<Rightarrow> ustring \<Rightarrow> nat" where
  "serial_digits U s = length (filter (isdigit U) (py_slice s 9 17))"

definition vin_score :: "unicode_db \<Rightarrow> ustring \<Rightarrow> nat" where
  "vin_score U v = (if first_isalpha U v then 10 else 0) + serial_digits U v"

text \<open>\<^verbatim>\<open>max(xs, key=key)\<close> keeps the first of the elements with the greatest key.\<close>

fun py_max_from :: "('a \<Rightarrow> nat) \<Rightarrow> 'a \<Rightarrow> 'a list \<Rightarrow> 'a" where
  "py_max_from key best [] = best"
| "py_max_from key best (x # xs) = py_max_from key (if key best < key x then x else best) xs"

definition py_max :: "('a \<Rightarrow> nat) \<Rightarrow> 'a list \<Rightarrow> 'a option" where
  "py_max key xs = (case xs of [] \<Rightarrow> None | x # rest \<Rightarrow> Some (py_max_from key x rest))"

definition vin_of_outcomes :: "unicode_db \<Rightarrow> (error + ustring) list \<Rightarrow> ustring option" where
  "vin_of_outcomes U outcomes =
     (let candidates = collect_candidates U outcomes
      in if candidates = [] then None else py_max (vin_score U) candidates)"

definition extract_vin ::
  "'px extern \<Rightarrow> unicode_db \<Rightarrow> settings \<Rightarrow> 'px ndarray \<Rightarrow> error + ustring option" where
  "extract_vin X U S img =
     (let region = extract_region img (vin_region_start S) (vin_region_end S)
      in case upscale_if_needed X S region of
           Inl e \<Rightarrow> Inl e
         | Inr region' \<Rightarrow>
             (case enhance_contrast X S region' of
                Inl e \<Rightarrow> Inl e
              | Inr processed \<Rightarrow>
                  Inr (vin_of_outcomes U
                         (map (\<lambda>psm. run_ocr X S processed (Some psm)) [3, 6]))))"

section \<open>The parser: body number by consensus\<close>

text \<open>
  \<^verbatim>\<open>Counter(all_candidates)\<close>: the distinct candidates in the order of their first
  occurrence, each with the number of its occurrences.
\<close>

fun counter_add :: "'a \<Rightarrow> ('a \<times> nat) list \<Rightarrow> ('a \<times> nat) list" where
  "counter_add x [] = [(x, 1)]"
| "counter_add x ((k, n) # kvs) =
     (if k = x then (k, n + 1) # kvs else (k, n) # counter_add x kvs)"

definition Counter :: "'a list \<Rightarrow> ('a \<times> nat) list" where
  "Counter xs = foldl (\<lambda>d x. counter_add x d) [] xs"

definition struct_score :: "unicode_db \<Rightarrow> ustring \<Rightarrow> nat" where
  "struct_score U candidate =
     (if first_isalpha U candidate then 5 else 0) + serial_digits U candidate"

definition combined_score :: "unicode_db \<Rightarrow> ustring \<times> nat \<Rightarrow> nat" where
  "combined_score U item =
     (case item of (candidate, count) \<Rightarrow> count * 10 + struct_score U candidate)"

text \<open>
  The score in the words of the specification, for a candidate among the candidates
  \<open>cands\<close>: ten times its frequency, plus 5 if its first character is alphabetic, plus the
  number of digits among its final 8 characters.
\<close>

definition spec_structural_score :: "unicode_db \<Rightarrow> ustring \<Rightarrow> nat" where
  "spec_structural_score U c =
     (if first_isalpha U c then 5 else 0)
     + length (filter (isdigit U) (drop (length c - 8) c))"

definition spec_combined_score :: "unicode_db \<Rightarrow> ustring list \<Rightarrow> ustring \<Rightarrow> nat" where
  "spec_combined_score U cands c = count_list cands c * 10 + spec_structural_score U c"

text \<open>\<open>_extract_with_multiple_strategies\<close> from the outcomes of the OCR passes on.\<close>

definition consensus :: "unicode_db \<Rightarrow> (error + ustring) list \<Rightarrow> ustring option" where
  "consensus U outcomes =
     (let all_candidates = collect_candidates U outcomes
      in if all_candidates = [] then None
         else map_option fst (py_max (combined_score U) (Counter all_candidates)))"

text \<open>
  The sweep: four contrast presets, three scale factors chosen by the height of the region,
  three page-segmentation modes.  Scaling, luminance conversion and equalisation are outside
  the \<^verbatim>\<open>try\<close>: an exception there leaves the function.  Each OCR pass is inside it, and its
  outcome is recorded.
\<close>

definition clahe_params :: "(rat \<times> nat) list" where
  "clahe_params = [(2, 8), (3, 8), (2, 4), (3 / 2, 16)]"

definition scale_factors :: "nat \<Rightarrow> rat list" where
  "scale_factors h = (if 200 \<le> h then [1, 3 / 2, 2] else [2, 5 / 2, 3])"

definition psm_modes :: "nat list" where
  "psm_modes = [3, 6, 11]"

definition variant_image ::
  "'px extern \<Rightarrow> 'px ndarray \<Rightarrow> rat \<Rightarrow> nat \<Rightarrow> rat \<Rightarrow> error + 'px ndarray" where
  "variant_image X region clip_limit tile_size scale =
     (case (if scale \<noteq> 1
            then (let new_h = py_int (float_mul (int_to_float (int (shape0 region))) scale);
                      new_w = py_int (float_mul (int_to_float (int (shape1 region))) scale)
                  in cv2_resize X region new_w new_h INTER_CUBIC)
            else Inr region) of
        Inl e \<Rightarrow> Inl e
      | Inr scaled \<Rightarrow>
          (case to_gray X scaled of
             Inl e \<Rightarrow> Inl e
           | Inr gray \<Rightarrow> x_clahe X clip_limit tile_size gray))"

fun sweep ::
  "'px extern \<Rightarrow> settings \<Rightarrow> 'px ndarray \<Rightarrow> ((rat \<times> nat) \<times> rat) list
     \<Rightarrow> error + (error + ustring) list" where
  "sweep X S region [] = Inr []"
| "sweep X S region (((clip_limit, tile_size), scale) # variants) =
     (case variant_image X region clip_limit tile_size scale of
        Inl e \<Rightarrow> Inl e
      | Inr enhanced \<Rightarrow>
          (case sweep X S region variants of
             Inl e \<Rightarrow> Inl e
           | Inr outcomes \<Rightarrow>
               Inr (map (\<lambda>psm. x_ocr X enhanced (tesseract_lang S) psm) psm_modes
                    @ outcomes)))"

text \<open>
  For the statements about the sweep: the enhanced image of every variant, and the outcomes
  of the passes over given enhanced images, which are the answers of the engine for each
  image at each page-segmentation mode, in the order of the loops.
\<close>

definition variant_images ::
  "'px extern \<Rightarrow> 'px ndarray \<Rightarrow> ((rat \<times> nat) \<times> rat) list \<Rightarrow> (error + 'px ndarray) list" where
  "variant_images X region variants =
     map (\<lambda>v. variant_image X region (fst (fst v)) (snd (fst v)) (snd v)) variants"

definition pass_outcomes ::
  "'px extern \<Rightarrow> settings \<Rightarrow> 'px ndarray list \<Rightarrow> (error + ustring) list" where
  "pass_outcomes X S images =
     concat (map (\<lambda>enhanced. map (\<lambda>psm. x_ocr X enhanced (tesseract_lang S) psm) psm_modes)
                 images)"

definition extract_with_multiple_strategies ::
  "'px extern \<Rightarrow> unicode_db \<Rightarrow> settings \<Rightarrow> 'px ndarray \<Rightarrow> rat \<Rightarrow> rat
     \<Rightarrow> error + ustring option" where
  "extract_with_multiple_strategies X U S img region_start region_end =
     (let region = extract_region img region_start region_end
      in case sweep X S region
                (List.product clahe_params (scale_factors (shape0 region))) of
           Inl e \<Rightarrow> Inl e
         | Inr outcomes \<Rightarrow> Inr (consensus U outcomes))"

definition extract_body_number ::
  "'px extern \<Rightarrow> unicode_db \<Rightarrow> settings \<Rightarrow> 'px ndarray \<Rightarrow> error + ustring option" where
  "extract_body_number X U S img =
     extract_with_multiple_strategies X U S img
       (body_number_region_start S) (body_number_region_end S)"

section \<open>Documents and batches\<close>

record extraction_result =
  file_name :: ustring
  reg_number :: "ustring option"
  vin :: "ustring option"
  body_number :: "ustring option"

definition parse_document ::
  "'px extern \<Rightarrow> unicode_db \<Rightarrow> settings \<Rightarrow> path \<Rightarrow> error + extraction_result" where
  "parse_document X U S image_path =
     (case x_imread X image_path of
        None \<Rightarrow> Inl (ValueError image_path)
      | Some img \<Rightarrow>
          (case extract_reg_number X U S img of
             Inl e \<Rightarrow> Inl e
           | Inr r \<Rightarrow>
               (case extract_vin X U S img of
                  Inl e \<Rightarrow> Inl e
                | Inr v \<Rightarrow>
                    (case extract_body_number X U S img of
                       Inl e \<Rightarrow> Inl e
                     | Inr b \<Rightarrow>
                         Inr \<lparr>file_name = path_name image_path, reg_number = r,
                              vin = v, body_number = b\<rparr>))))"

text \<open>
  The loop of \<open>process_directory\<close> over the image files found, in their sorted order.  Its
  state is what has been printed (the file name and the exception of each failure) and the
  results so far.  The handler prints before it appends the empty result, and nothing
  guards the \<^verbatim>\<open>print\<close>: an exception of it leaves the loop and the function.
\<close>

definition empty_result :: "ustring \<Rightarrow> extraction_result" where
  "empty_result name =
     \<lparr>file_name = name, reg_number = None, vin = None, body_number = None\<rparr>"

definition process_step ::
  "'px extern \<Rightarrow> unicode_db \<Rightarrow> settings
     \<Rightarrow> (ustring \<times> error) list \<times> extraction_result list \<Rightarrow> path
     \<Rightarrow> error + (ustring \<times> error) list \<times> extraction_result list" where
  "process_step X U S st image_file =
     (case st of (printed, results) \<Rightarrow>
        (case parse_document X U S image_file of
           Inr result \<Rightarrow> Inr (printed, results @ [result])
         | Inl e \<Rightarrow>
             (case x_print X (path_name image_file) e of
                Some raised \<Rightarrow> Inl raised
              | None \<Rightarrow> Inr (printed @ [(path_name image_file, e)],
                             results @ [empty_result (path_name image_file)]))))"

fun process_loop ::
  "'px extern \<Rightarrow> unicode_db \<Rightarrow> settings
     \<Rightarrow> (ustring \<times> error) list \<times> extraction_result list \<Rightarrow> path list
     \<Rightarrow> error + (ustring \<times> error) list \<times> extraction_result list" where
  "process_loop X U S st [] = Inr st"
| "process_loop X U S st (image_file # image_files) =
     (case process_step X U S st image_file of
        Inl raised \<Rightarrow> Inl raised
      | Inr st' \<Rightarrow> process_loop X U S st' image_files)"

definition process_directory ::
  "'px extern \<Rightarrow> unicode_db \<Rightarrow> settings \<Rightarrow> path list
     \<Rightarrow> error + (ustring \<times> error) list \<times> extraction_result list" where
  "process_directory X U S image_files = process_loop X U S ([], []) image_files"

section \<open>Sample inputs\<close>

text \<open>
  A page of 16 rows and one column, collaborators that read it under one name only, leave
  the pixels alone and read the same line of text at every pass, and settings with a
  small minimum height and region windows that are binary fractions.  The standard output
  is in UTF-8: it writes every message but one with a surrogate code point in the file name
  or in the path the exception names (a byte of a file name that is no UTF-8 reaches Python
  as a surrogate), which \<^verbatim>\<open>print\<close> refuses with \<^verbatim>\<open>UnicodeEncodeError\<close>.
\<close>

definition has_surrogate :: "ustring \<Rightarrow> bool" where
  "has_surrogate s = list_ex (\<lambda>c. 55296 \<le> c \<and> c \<le> 57343) s"

definition utf8_print :: "ustring \<Rightarrow> error \<Rightarrow> error option" where
  "utf8_print name e =
     (if has_surrogate name
         \<or> (case e of ValueError p \<Rightarrow> list_ex has_surrogate p | _ \<Rightarrow> False)
      then Some UnicodeEncodeError else None)"

definition sample_text :: ustring where
  "sample_text = str ''VIN wp1zzz9pz9la42290''"

definition sample_image :: "nat ndarray" where
  "sample_image = \<lparr>img_rows = replicate 16 [0], img_width = 1, img_ndim = 2\<rparr>"

definition sample_extern :: "nat extern" where
  "sample_extern =
     \<lparr>x_imread = (\<lambda>p. if p = [str ''scans'', str ''sts.png''] then Some sample_image else None),
      x_resize_px = (\<lambda>m img w h y x. 0),
      x_cvtColor = (\<lambda>img. Inr img),
      x_clahe = (\<lambda>clip tile img. Inr img),
      x_ocr = (\<lambda>img lang psm. Inr sample_text),
      x_print = utf8_print\<rparr>"

text \<open>
  A standard output in ASCII (or in any encoding without Cyrillic letters) refuses every
  message of the handler, whose first word is Cyrillic.
\<close>

definition ascii_print :: "ustring \<Rightarrow> error \<Rightarrow> error option" where
  "ascii_print name e = Some UnicodeEncodeError"

text \<open>The same collaborators with an engine that fails at the first page-segmentation mode.\<close>

definition flaky_extern :: "nat extern" where
  "flaky_extern =
     sample_extern\<lparr>x_ocr := (\<lambda>img lang psm. if psm = 3 then Inl TesseractError
                                            else Inr sample_text)\<rparr>"

definition page8 :: "nat ndarray" where
  "page8 = \<lparr>img_rows = replicate 8 [0], img_width = 1, img_ndim = 2\<rparr>"

definition strip97 :: "nat ndarray" where
  "strip97 = \<lparr>img_rows = replicate 97 [0], img_width = 1, img_ndim = 2\<rparr>"

definition sample_settings :: settings where
  "sample_settings =
     \<lparr>input_dir = [str ''scans''],
      output_file = [str ''results.json''],
      tesseract_lang = ''eng'',
      tesseract_psm = 6,
      clahe_clip_limit = 2,
      clahe_tile_size = 8,
      min_image_height = 4,
      upscale_method = ''cubic'',
      reg_number_region_start = 1 / 8,
      reg_number_region_end = 3 / 8,
      vin_region_start = 1 / 4,
      vin_region_end = 5 / 8,
      body_number_region_start = 1 / 2,
      body_number_region_end = 3 / 4,
      vin_length = 17,
      min_reg_number_length = 8,
      max_reg_number_length = 10\<rparr>"

section \<open>Rounding: exponent, monotonicity, exactness on integers\<close>

lemma expo_bounds:
  "0 < x \<Longrightarrow> power_int 2 (expo x) \<le> x \<and> x < power_int 2 (expo x + 1)"
proof (induction x rule: expo.induct)
  case (1 x)
  show ?case
  proof (cases "x < 1")
    case True
    with "1.prems" have ih:
      "power_int 2 (expo (2 * x)) \<le> 2 * x \<and> 2 * x < power_int 2 (expo (2 * x) + 1)"
      using "1.IH"(1) by simp
    have e: "expo x = expo (2 * x) - 1" using True "1.prems" by (subst expo.simps) simp
    have p: "power_int (2::rat) (expo (2 * x)) = 2 * power_int 2 (expo (2 * x) - 1)"
      by (simp add: power_int_diff)
    have p2: "power_int (2::rat) (expo (2 * x) + 1) = 2 * power_int 2 (expo (2 * x))"
      by (simp add: power_int_add)
    show ?thesis using ih e p p2 by simp
  next
    case False
    note nlt = this
    show ?thesis
    proof (cases "2 \<le> x")
      case True
      with nlt "1.prems" have ih:
        "power_int 2 (expo (x / 2)) \<le> x / 2 \<and> x / 2 < power_int 2 (expo (x / 2) + 1)"
        using "1.IH"(2) by simp
      have e: "expo x = expo (x / 2) + 1" using True nlt "1.prems" by (subst expo.simps) simp
      have p2: "power_int (2::rat) (expo (x / 2) + 1) = 2 * power_int 2 (expo (x / 2))"
        by (simp add: power_int_add)
      have p3: "power_int (2::rat) (expo (x / 2) + 1 + 1) = 2 * power_int 2 (expo (x / 2) + 1)"
        by (simp add: power_int_add)
      show ?thesis using ih e p2 p3 by simp
    next
      case False
      have e: "expo x = 0" using False nlt "1.prems" by (subst expo.simps) simp
      show ?thesis using False nlt e by simp
    qed
  qed
qed

lemma rhe_range: "\<lfloor>x\<rfloor> \<le> rhe x \<and> rhe x \<le> \<lfloor>x\<rfloor> + 1"
  by (simp add: rhe_def Let_def)

lemma rhe_of_int: "rhe (of_int n) = n"
  by (simp add: rhe_def Let_def)

lemma rhe_mono: "x \<le> y \<Longrightarrow> rhe x \<le> rhe y"
proof -
  assume le: "x \<le> y"
  have fl: "\<lfloor>x\<rfloor> \<le> \<lfloor>y\<rfloor>" using le by (rule floor_mono)
  show ?thesis
  proof (cases "\<lfloor>x\<rfloor> = \<lfloor>y\<rfloor>")
    case True
    then have "x - of_int \<lfloor>x\<rfloor> \<le> y - of_int \<lfloor>y\<rfloor>" using le by simp
    then show ?thesis using True by (auto simp: rhe_def Let_def)
  next
    case False
    then have "\<lfloor>x\<rfloor> + 1 \<le> \<lfloor>y\<rfloor>" using fl by simp
    then show ?thesis using rhe_range [of x] rhe_range [of y] by linarith
  qed
qed

lemma expo_mono: "0 < x \<Longrightarrow> x \<le> y \<Longrightarrow> expo x \<le> expo y"
proof (rule ccontr)
  assume a: "0 < x" "x \<le> y" and n: "\<not> expo x \<le> expo y"
  then have "expo y + 1 \<le> expo x" by simp
  then have "power_int (2::rat) (expo y + 1) \<le> power_int 2 (expo x)"
    by (intro power_int_increasing) simp_all
  moreover have "y < power_int 2 (expo y + 1)" using expo_bounds [of y] a by simp
  moreover have "power_int 2 (expo x) \<le> x" using expo_bounds [of x] a by simp
  ultimately show False using a by linarith
qed

lemma p52: "power_int (2::rat) 52 = of_int (2 ^ 52)"
  by (simp add: power_int_def)

lemma p53: "power_int (2::rat) 53 = of_int (2 ^ 53)"
  by (simp add: power_int_def)

lemma quantum_lo: "power_int (2::rat) e = of_int (2 ^ 52) * power_int 2 (e - 52)"
proof -
  have "power_int (2::rat) (52 + (e - 52)) = power_int 2 52 * power_int 2 (e - 52)"
    by (rule power_int_add) simp
  then show ?thesis by (simp only: p52) simp
qed

lemma quantum_hi: "power_int (2::rat) (e + 1) = of_int (2 ^ 53) * power_int 2 (e - 52)"
proof -
  have "power_int (2::rat) (53 + (e - 52)) = power_int 2 53 * power_int 2 (e - 52)"
    by (rule power_int_add) simp
  moreover have "53 + (e - 52) = e + 1" by simp
  ultimately show ?thesis by (simp only: p53)
qed

lemma round_pos_binade:
  assumes "0 < x"
  shows "power_int 2 (expo x) \<le> round_pos x \<and> round_pos x \<le> power_int 2 (expo x + 1)"
proof -
  define q :: rat where "q = power_int 2 (expo x - 52)"
  define lo :: int where "lo = 2 ^ 52"
  define hi :: int where "hi = 2 ^ 53"
  have qpos: "0 < q" by (simp add: q_def)
  have elo: "power_int 2 (expo x) = of_int lo * q"
    unfolding q_def lo_def by (rule quantum_lo)
  have ehi: "power_int 2 (expo x + 1) = of_int hi * q"
    unfolding q_def hi_def by (rule quantum_hi)
  have b: "of_int lo * q \<le> x" "x < of_int hi * q"
    using expo_bounds [OF assms] by (simp_all only: elo ehi)
  have "of_int lo \<le> x / q" using b(1) qpos by (simp add: pos_le_divide_eq)
  then have "rhe (of_int lo) \<le> rhe (x / q)" by (rule rhe_mono)
  then have l: "lo \<le> rhe (x / q)" by (simp only: rhe_of_int)
  have "x / q \<le> of_int hi" using b(2) qpos by (simp add: pos_divide_le_eq)
  then have "rhe (x / q) \<le> rhe (of_int hi)" by (rule rhe_mono)
  then have u: "rhe (x / q) \<le> hi" by (simp only: rhe_of_int)
  have r: "round_pos x = of_int (rhe (x / q)) * q"
    by (simp add: round_pos_def q_def Let_def)
  have "(of_int lo :: rat) \<le> of_int (rhe (x / q))" using l by (simp only: of_int_le_iff)
  then have 1: "of_int lo * q \<le> of_int (rhe (x / q)) * q"
    using qpos by (simp only: mult_le_cancel_right_pos)
  have "(of_int (rhe (x / q)) :: rat) \<le> of_int hi" using u by (simp only: of_int_le_iff)
  then have 2: "of_int (rhe (x / q)) * q \<le> of_int hi * q"
    using qpos by (simp only: mult_le_cancel_right_pos)
  show ?thesis using 1 2 by (simp only: r elo ehi)
qed

lemma round_pos_mono:
  assumes "0 < x" "x \<le> y"
  shows "round_pos x \<le> round_pos y"
proof (cases "expo x = expo y")
  case True
  define q :: rat where "q = power_int 2 (expo x - 52)"
  have qpos: "0 < q" by (simp add: q_def)
  have "x / q \<le> y / q" using assms qpos by (simp add: divide_right_mono)
  then have "rhe (x / q) \<le> rhe (y / q)" by (rule rhe_mono)
  then have "(of_int (rhe (x / q)) :: rat) \<le> of_int (rhe (y / q))" by simp
  then have "of_int (rhe (x / q)) * q \<le> of_int (rhe (y / q)) * q"
    using qpos by (simp only: mult_le_cancel_right_pos)
  then show ?thesis using True by (simp add: round_pos_def q_def Let_def)
next
  case False
  have ypos: "0 < y" using assms by simp
  have "expo x \<le> expo y" using assms by (rule expo_mono)
  with False have "expo x + 1 \<le> expo y" by simp
  then have "power_int (2::rat) (expo x + 1) \<le> power_int 2 (expo y)"
    by (intro power_int_increasing) simp_all
  then show ?thesis
    using round_pos_binade [OF assms(1)] round_pos_binade [OF ypos] by linarith
qed

lemma round_pos_pos: "0 < x \<Longrightarrow> 0 < round_pos x"
proof -
  assume a: "0 < x"
  have "0 < power_int (2::rat) (expo x)" by simp
  then show ?thesis using round_pos_binade [OF a] by linarith
qed

lemma round_double_mono: "x \<le> y \<Longrightarrow> round_double x \<le> round_double y"
proof -
  assume le: "x \<le> y"
  consider "0 < x" | "x = 0" | "x < 0" "y < 0" | "x < 0" "0 \<le> y" using le by linarith
  then show ?thesis
  proof cases
    case 1
    then show ?thesis using le round_pos_mono [of x y] by (simp add: round_double_def)
  next
    case 2
    then show ?thesis using le round_pos_pos [of y] by (auto simp: round_double_def)
  next
    case 3
    then show ?thesis
      using le round_pos_mono [of "- y" "- x"] by (simp add: round_double_def)
  next
    case 4
    then show ?thesis using round_pos_pos [of y] round_pos_pos [of "- x"]
      by (auto simp: round_double_def)
  qed
qed

lemma round_pos_exact:
  assumes "x / power_int 2 (expo x - 52) = of_int n"
  shows "round_pos x = x"
proof -
  have "round_pos x = of_int n * power_int 2 (expo x - 52)"
    using assms by (simp add: round_pos_def Let_def rhe_of_int)
  also have "\<dots> = x" using assms [symmetric] by simp
  finally show ?thesis .
qed

lemma expo_of_nat_less:
  assumes "0 < n" "n < 2 ^ 53"
  shows "expo (of_nat n) < 53"
proof (rule ccontr)
  assume "\<not> expo (of_nat n) < 53"
  then have "53 \<le> expo (of_nat n)" by simp
  then have "power_int (2::rat) 53 \<le> power_int 2 (expo (of_nat n))"
    by (intro power_int_increasing) simp_all
  moreover have "power_int 2 (expo (of_nat n)) \<le> (of_nat n :: rat)"
    using expo_bounds [of "of_nat n"] assms(1) by simp
  ultimately have "power_int (2::rat) 53 \<le> of_nat n" by linarith
  then have "(of_nat (2 ^ 53) :: rat) \<le> of_nat n" by (simp add: power_int_def)
  then have "(2::nat) ^ 53 \<le> n" by (simp only: of_nat_le_iff)
  with assms(2) show False by simp
qed

lemma round_double_of_nat:
  assumes "n < 2 ^ 53"
  shows "round_double (of_nat n) = of_nat n"
proof (cases "n = 0")
  case True
  then show ?thesis by (simp add: round_double_def)
next
  case False
  then have pos: "0 < (of_nat n :: rat)" by simp
  define k where "k = nat (52 - expo (of_nat n))"
  have "expo (of_nat n) < 53" using False assms by (intro expo_of_nat_less) simp_all
  then have k: "expo (of_nat n) - 52 = - int k" by (simp add: k_def)
  have "of_nat n / power_int (2::rat) (- int k) = of_int (int n * 2 ^ k)"
    by (simp add: power_int_minus field_simps)
  then have "of_nat n / power_int (2::rat) (expo (of_nat n) - 52) = of_int (int n * 2 ^ k)"
    by (simp only: k)
  then have "round_pos (of_nat n) = of_nat n" by (rule round_pos_exact)
  with pos show ?thesis by (simp add: round_double_def)
qed

lemma round_double_nonneg: "0 \<le> x \<Longrightarrow> 0 \<le> round_double x"
  using round_double_mono [of 0 x] by (simp add: round_double_def)

lemma int_to_float_exact: "n < 2 ^ 53 \<Longrightarrow> int_to_float (int n) = of_nat n"
  by (simp add: int_to_float_def round_double_of_nat)

lemma int_to_float_nonneg: "0 \<le> int_to_float (int n)"
  unfolding int_to_float_def by (rule round_double_nonneg) simp

lemma float_mul_nonneg: "0 \<le> x \<Longrightarrow> 0 \<le> y \<Longrightarrow> 0 \<le> float_mul x y"
  unfolding float_mul_def by (rule round_double_nonneg) simp

lemma float_mul_mono: "0 \<le> x \<Longrightarrow> y \<le> z \<Longrightarrow> float_mul x y \<le> float_mul x z"
  unfolding float_mul_def by (rule round_double_mono) (rule mult_left_mono)

lemma float_mul_le_height:
  assumes "n < 2 ^ 53" "r \<le> 1"
  shows "float_mul (of_nat n) r \<le> of_nat n"
proof -
  have "float_mul (of_nat n) r \<le> float_mul (of_nat n) 1"
    using assms(2) by (intro float_mul_mono) simp_all
  also have "\<dots> = of_nat n" using assms(1) by (simp add: float_mul_def round_double_of_nat)
  finally show ?thesis .
qed

section \<open>Slices\<close>

lemma py_slice_inside:
  assumes "0 \<le> i" "i \<le> j" "j \<le> int (length xs)"
  shows "py_slice xs i j = take (nat j - nat i) (drop (nat i) xs)"
    and "length (py_slice xs i j) = nat j - nat i"
proof -
  have a: "slice_index (length xs) i = nat i" using assms by (simp add: slice_index_def)
  have b: "slice_index (length xs) j = nat j" using assms by (simp add: slice_index_def)
  show "py_slice xs i j = take (nat j - nat i) (drop (nat i) xs)"
    by (simp add: py_slice_def Let_def a b)
  then show "length (py_slice xs i j) = nat j - nat i" using assms by simp
qed

lemma py_slice_backwards:
  assumes "0 \<le> j" "j \<le> i"
  shows "py_slice xs i j = []"
proof -
  have "slice_index (length xs) j \<le> slice_index (length xs) i"
    using assms by (simp add: slice_index_def)
  then show ?thesis by (simp add: py_slice_def Let_def)
qed

section \<open>Region selection and upscaling\<close>

lemma extract_region_bounds:
  assumes "0 \<le> s" "s \<le> e" "e \<le> 1" "shape0 img < 2 ^ 53"
  shows "0 \<le> float_mul (of_nat (shape0 img)) s"
    and "float_mul (of_nat (shape0 img)) s \<le> float_mul (of_nat (shape0 img)) e"
    and "float_mul (of_nat (shape0 img)) e \<le> of_nat (shape0 img)"
proof -
  show "0 \<le> float_mul (of_nat (shape0 img)) s" using assms(1) by (intro float_mul_nonneg) simp_all
  show "float_mul (of_nat (shape0 img)) s \<le> float_mul (of_nat (shape0 img)) e"
    using assms(2) by (intro float_mul_mono) simp_all
  show "float_mul (of_nat (shape0 img)) e \<le> of_nat (shape0 img)"
    using assms(3,4) by (intro float_mul_le_height)
qed

lemma extract_region_unfold:
  "shape0 img < 2 ^ 53 \<Longrightarrow>
   extract_region img s e =
     img\<lparr>img_rows := py_slice (img_rows img) (py_int (float_mul (of_nat (shape0 img)) s))
                                           (py_int (float_mul (of_nat (shape0 img)) e))\<rparr>"
  by (simp add: extract_region_def Let_def int_to_float_exact)

text \<open>
  Claim C3.  For ratios \<open>0 \<le> start < end \<le> 1\<close> and an image of \<open>H\<close> rows (a height that a
  double holds exactly), \<open>extract_region\<close> returns the rows from \<open>floor (H * start)\<close> up to,
  not including, \<open>floor (H * end)\<close>, over the full width: the number of rows is the
  difference of the two floors and the width is that of the source.  The products are the
  double products the code computes.  The function is pure: it returns a new record and has
  no state to change.
\<close>

theorem extract_region_row_slice:
  assumes "0 \<le> start_ratio" "start_ratio < end_ratio" "end_ratio \<le> 1"
      and "shape0 img < 2 ^ 53"
  shows "int (shape0 (extract_region img start_ratio end_ratio))
           = \<lfloor>float_mul (of_nat (shape0 img)) end_ratio\<rfloor>
             - \<lfloor>float_mul (of_nat (shape0 img)) start_ratio\<rfloor>
         \<and> shape1 (extract_region img start_ratio end_ratio) = shape1 img
         \<and> img_rows (extract_region img start_ratio end_ratio)
             = take (nat \<lfloor>float_mul (of_nat (shape0 img)) end_ratio\<rfloor>
                     - nat \<lfloor>float_mul (of_nat (shape0 img)) start_ratio\<rfloor>)
                 (drop (nat \<lfloor>float_mul (of_nat (shape0 img)) start_ratio\<rfloor>) (img_rows img))"
proof -
  define a where "a = float_mul (of_nat (shape0 img)) start_ratio"
  define b where "b = float_mul (of_nat (shape0 img)) end_ratio"
  have le: "start_ratio \<le> end_ratio" using assms(2) by simp
  have a0: "0 \<le> a" and ab: "a \<le> b" and bh: "b \<le> of_nat (shape0 img)"
    unfolding a_def b_def using extract_region_bounds [OF assms(1) le assms(3,4)] by simp_all
  have b0: "0 \<le> b" using a0 ab by simp
  have i0: "0 \<le> \<lfloor>a\<rfloor>" using a0 by simp
  have ij: "\<lfloor>a\<rfloor> \<le> \<lfloor>b\<rfloor>" using ab by (rule floor_mono)
  have "\<lfloor>b\<rfloor> \<le> \<lfloor>of_nat (shape0 img) :: rat\<rfloor>" using bh by (rule floor_mono)
  then have jn: "\<lfloor>b\<rfloor> \<le> int (length (img_rows img))" by (simp add: shape0_def)
  have rows: "img_rows (extract_region img start_ratio end_ratio)
                = py_slice (img_rows img) \<lfloor>a\<rfloor> \<lfloor>b\<rfloor>"
    using a0 b0 by (simp add: extract_region_unfold [OF assms(4)] py_int_def a_def b_def)
  have 1: "img_rows (extract_region img start_ratio end_ratio)
             = take (nat \<lfloor>b\<rfloor> - nat \<lfloor>a\<rfloor>) (drop (nat \<lfloor>a\<rfloor>) (img_rows img))"
    using py_slice_inside(1) [OF i0 ij jn] rows by simp
  have "shape0 (extract_region img start_ratio end_ratio) = nat \<lfloor>b\<rfloor> - nat \<lfloor>a\<rfloor>"
    using py_slice_inside(2) [OF i0 ij jn] rows by (simp add: shape0_def)
  then have 2: "int (shape0 (extract_region img start_ratio end_ratio)) = \<lfloor>b\<rfloor> - \<lfloor>a\<rfloor>"
    using i0 ij by linarith
  have 3: "shape1 (extract_region img start_ratio end_ratio) = shape1 img"
    by (simp add: extract_region_def Let_def shape1_def)
  show ?thesis using 1 2 3 unfolding a_def b_def by simp
qed

lemma sample_image_shape: "shape0 sample_image = 16" "shape1 sample_image = 1"
  by (simp_all add: sample_image_def shape0_def shape1_def)

lemma sample_products:
  "\<lfloor>float_mul 16 (1 / 4)\<rfloor> = 4" "\<lfloor>float_mul 16 (1 / 2)\<rfloor> = 8"
  by code_simp+

theorem extract_region_row_slice_witness:
  "(0::rat) \<le> 1 / 4 \<and> (1 / 4 :: rat) < 1 / 2 \<and> (1 / 2 :: rat) \<le> 1
   \<and> shape0 sample_image < 2 ^ 53
   \<and> int (shape0 (extract_region sample_image (1 / 4) (1 / 2))) = 4
   \<and> shape1 (extract_region sample_image (1 / 4) (1 / 2)) = 1
   \<and> img_rows (extract_region sample_image (1 / 4) (1 / 2)) = replicate 4 [0]"
proof -
  have h: "(0::rat) \<le> 1 / 4" "(1 / 4 :: rat) < 1 / 2" "(1 / 2 :: rat) \<le> 1"
    "shape0 sample_image < 2 ^ 53"
    by (simp_all add: sample_image_shape)
  have r: "img_rows sample_image = replicate 16 [0]" by (simp add: sample_image_def)
  show ?thesis
    using extract_region_row_slice [OF h] h
    by (simp add: sample_image_shape sample_products r)
qed

text \<open>
  Claim C6, as stated, fails: the ratios are not validated, a negative bound counts from
  the bottom edge, and the slice of a page of 8 rows from ratio \<open>-3/4\<close> to ratio \<open>1/2\<close>
  holds the two rows 2 and 3.
\<close>

theorem extract_region_out_of_range_counterexample:
  "shape0 (extract_region page8 (- 3 / 4) (1 / 2)) = 2"
  by code_simp

text \<open>
  Finite results: a product of a height below \<open>2 ^ 53\<close> and a ratio of magnitude at most
  \<open>2 ^ 970\<close> stays below \<open>2 ^ 1023\<close> after rounding.
\<close>

lemma expo_less:
  assumes "0 < x" "x < power_int 2 k"
  shows "expo x < k"
proof (rule ccontr)
  assume "\<not> expo x < k"
  then have "power_int (2::rat) k \<le> power_int 2 (expo x)"
    by (intro power_int_increasing) simp_all
  moreover have "power_int 2 (expo x) \<le> x" using expo_bounds [OF assms(1)] by simp
  ultimately show False using assms(2) by linarith
qed

lemma round_pos_below:
  assumes "0 < x" "x < power_int 2 k"
  shows "round_pos x \<le> power_int 2 k"
proof -
  have "expo x + 1 \<le> k" using expo_less [OF assms] by simp
  then have "power_int (2::rat) (expo x + 1) \<le> power_int 2 k"
    by (intro power_int_increasing) simp_all
  then show ?thesis using round_pos_binade [OF assms(1)] by linarith
qed

lemma round_double_below:
  assumes "\<bar>x\<bar> < power_int 2 k"
  shows "\<bar>round_double x\<bar> \<le> power_int 2 k"
proof -
  consider "x = 0" | "0 < x" | "x < 0" by linarith
  then show ?thesis
  proof cases
    case 1
    then show ?thesis by (simp add: round_double_def)
  next
    case 2
    then have "round_pos x \<le> power_int 2 k" using assms by (intro round_pos_below) simp_all
    then show ?thesis using 2 round_pos_pos [OF 2] by (simp add: round_double_def)
  next
    case 3
    then have p: "0 < - x" by simp
    then have "round_pos (- x) \<le> power_int 2 k" using assms by (intro round_pos_below) simp_all
    then show ?thesis using 3 round_pos_pos [OF p] by (simp add: round_double_def)
  qed
qed

lemma round_double_minus: "round_double (- x) = - round_double x"
  by (simp add: round_double_def)

lemma product_finite:
  assumes "n < 2 ^ 53" "\<bar>r\<bar> \<le> 2 ^ 970"
  shows "double_finite (float_mul (of_nat n) r)"
proof -
  define B :: rat where "B = 2 ^ 970"
  have Bpos: "0 < B" by (simp add: B_def)
  have n: "(of_nat n :: rat) < 2 ^ 53"
  proof -
    have "(of_nat n :: rat) < of_nat (2 ^ 53)" using assms(1) by (simp only: of_nat_less_iff)
    then show ?thesis by simp
  qed
  have "\<bar>of_nat n * r\<bar> = of_nat n * \<bar>r\<bar>" by (simp add: abs_mult)
  also have "\<dots> \<le> of_nat n * B" using assms(2) by (simp add: B_def mult_left_mono)
  also have "\<dots> < 2 ^ 53 * B" using n Bpos by (simp only: mult_strict_right_mono)
  also have "\<dots> = power_int 2 1023"
    by (simp add: B_def power_int_def power_add [symmetric])
  finally have "\<bar>of_nat n * r\<bar> < power_int 2 1023" .
  then have "\<bar>round_double (of_nat n * r)\<bar> \<le> power_int 2 1023" by (rule round_double_below)
  moreover have "power_int (2::rat) 1023 < 2 ^ 1024" by (simp add: power_int_def)
  ultimately show ?thesis by (simp add: double_finite_def float_mul_def)
qed

lemma height_finite: "n < 2 ^ 53 \<Longrightarrow> double_finite (int_to_float (int n))"
proof -
  assume a: "n < 2 ^ 53"
  have "(of_nat n :: rat) < of_nat (2 ^ 53)" using a by (simp only: of_nat_less_iff)
  then have "(of_nat n :: rat) < 2 ^ 53" by simp
  moreover have "(2::rat) ^ 53 < 2 ^ 1024" by simp
  ultimately show ?thesis by (simp add: int_to_float_exact [OF a] double_finite_def)
qed

lemma slice_index_le: "slice_index n i \<le> n"
  by (auto simp: slice_index_def max_def)

lemma py_slice_from_end: "int (length xs) \<le> i \<Longrightarrow> py_slice xs i j = []"
proof -
  assume "int (length xs) \<le> i"
  then have "slice_index (length xs) i = length xs" by (simp add: slice_index_def)
  then show ?thesis using slice_index_le [of "length xs" j] by (simp add: py_slice_def Let_def)
qed

lemma py_slice_to_start: "j \<le> - int (length xs) \<Longrightarrow> py_slice xs i j = []"
proof -
  assume "j \<le> - int (length xs)"
  then have "slice_index (length xs) j = 0" by (simp add: slice_index_def)
  then show ?thesis by (simp add: py_slice_def Let_def)
qed

lemma extract_region_rows:
  "img_rows (extract_region img s e)
     = py_slice (img_rows img) (py_int (float_mul (int_to_float (int (shape0 img))) s))
                               (py_int (float_mul (int_to_float (int (shape0 img))) e))"
  by (simp add: extract_region_def Let_def)

lemma extract_region_width: "shape1 (extract_region img s e) = shape1 img"
  by (simp add: extract_region_def Let_def shape1_def)

lemma start_at_or_below_bottom:
  assumes "n < 2 ^ 53" "1 \<le> r"
  shows "int n \<le> py_int (float_mul (int_to_float (int n)) r)"
proof -
  have "float_mul (of_nat n) 1 \<le> float_mul (of_nat n) r"
    using assms(2) by (intro float_mul_mono) simp_all
  then have "(of_nat n :: rat) \<le> float_mul (of_nat n) r"
    using assms(1) by (simp add: float_mul_def round_double_of_nat)
  then have "int n \<le> \<lfloor>float_mul (of_nat n) r\<rfloor> \<and> 0 \<le> float_mul (of_nat n) r"
    by (simp add: le_floor_iff order_trans [OF of_nat_0_le_iff])
  then show ?thesis using assms(1) by (simp add: py_int_def int_to_float_exact)
qed

lemma end_at_or_above_top:
  assumes "n < 2 ^ 53" "r \<le> - 1"
  shows "py_int (float_mul (int_to_float (int n)) r) \<le> - int n"
proof -
  have "float_mul (of_nat n) r \<le> float_mul (of_nat n) (- 1)"
    using assms(2) by (intro float_mul_mono) simp_all
  also have "\<dots> = - of_nat n"
    using assms(1) by (simp add: float_mul_def round_double_minus round_double_of_nat)
  finally have le: "float_mul (of_nat n) r \<le> - of_nat n" .
  define x where "x = float_mul (of_nat n) r"
  have lx: "x \<le> - of_nat n" using le by (simp add: x_def)
  have "py_int x \<le> - int n"
  proof (cases "0 \<le> x")
    case True
    then have z: "x = 0" and "(of_nat n :: rat) = 0" using lx by simp_all
    then have "n = 0" by simp
    then show ?thesis using z by (simp add: py_int_def)
  next
    case False
    have "(- of_nat n :: rat) = of_int (- int n)" by simp
    then have c: "\<lceil>- of_nat n :: rat\<rceil> = - int n" by (simp only: ceiling_of_int)
    have "\<lceil>x\<rceil> \<le> \<lceil>- of_nat n :: rat\<rceil>" using lx by (rule ceiling_mono)
    then show ?thesis using False c by (simp add: py_int_def)
  qed
  then have "py_int (float_mul (of_nat n) r) \<le> - int n" by (simp add: x_def)
  then show ?thesis using assms(1) by (simp add: int_to_float_exact)
qed

text \<open>
  Claim C6, amended.  Let the image have fewer than \<open>2 ^ 53\<close> rows and the two ratios a
  magnitude of at most \<open>2 ^ 970\<close>, so that the height and both products are finite doubles
  and \<^verbatim>\<open>int\<close> raises nothing.  Whenever \<open>start_ratio \<ge> end_ratio \<ge> 0\<close>, or
  \<open>start_ratio \<ge> 1\<close>, or \<open>end_ratio \<le> -1\<close>, \<open>extract_region\<close> returns a region of zero rows
  and of the width of the source.  (A negative start above \<open>-1\<close>, a negative end above
  \<open>-1\<close> and an end above 1 are not validated either, and there the slice may hold rows, as
  the counterexample shows.)
\<close>

theorem extract_region_empty_cases:
  assumes "shape0 img < 2 ^ 53"
      and "\<bar>start_ratio\<bar> \<le> 2 ^ 970" "\<bar>end_ratio\<bar> \<le> 2 ^ 970"
      and "(0 \<le> end_ratio \<and> end_ratio \<le> start_ratio) \<or> 1 \<le> start_ratio \<or> end_ratio \<le> - 1"
  shows "double_finite (int_to_float (int (shape0 img)))
         \<and> double_finite (float_mul (int_to_float (int (shape0 img))) start_ratio)
         \<and> double_finite (float_mul (int_to_float (int (shape0 img))) end_ratio)
         \<and> shape0 (extract_region img start_ratio end_ratio) = 0
         \<and> img_rows (extract_region img start_ratio end_ratio) = []
         \<and> shape1 (extract_region img start_ratio end_ratio) = shape1 img"
proof -
  define h where "h = int_to_float (int (shape0 img))"
  have f0: "double_finite h" unfolding h_def using assms(1) by (rule height_finite)
  have f1: "double_finite (float_mul h start_ratio)"
    unfolding h_def int_to_float_exact [OF assms(1)] using assms(1,2) by (rule product_finite)
  have f2: "double_finite (float_mul h end_ratio)"
    unfolding h_def int_to_float_exact [OF assms(1)] using assms(1,3) by (rule product_finite)
  have "py_slice (img_rows img) (py_int (float_mul h start_ratio))
          (py_int (float_mul h end_ratio)) = []"
    using assms(4)
  proof (elim disjE conjE)
    assume e0: "0 \<le> end_ratio" and es: "end_ratio \<le> start_ratio"
    have h0: "0 \<le> h" unfolding h_def by (rule int_to_float_nonneg)
    have b0: "0 \<le> float_mul h end_ratio" using h0 e0 by (rule float_mul_nonneg)
    have ba: "float_mul h end_ratio \<le> float_mul h start_ratio"
      using h0 es by (rule float_mul_mono)
    have a0: "0 \<le> float_mul h start_ratio" using b0 ba by simp
    have j0: "0 \<le> py_int (float_mul h end_ratio)" using b0 by (simp add: py_int_def)
    have ji: "py_int (float_mul h end_ratio) \<le> py_int (float_mul h start_ratio)"
      using a0 b0 ba by (simp add: py_int_def floor_mono)
    show ?thesis using j0 ji by (rule py_slice_backwards)
  next
    assume "1 \<le> start_ratio"
    then have "int (length (img_rows img)) \<le> py_int (float_mul h start_ratio)"
      unfolding h_def using start_at_or_below_bottom [OF assms(1)] by (simp add: shape0_def)
    then show ?thesis by (rule py_slice_from_end)
  next
    assume "end_ratio \<le> - 1"
    then have "py_int (float_mul h end_ratio) \<le> - int (length (img_rows img))"
      unfolding h_def using end_at_or_above_top [OF assms(1)] by (simp add: shape0_def)
    then show ?thesis by (rule py_slice_to_start)
  qed
  then have r: "img_rows (extract_region img start_ratio end_ratio) = []"
    by (simp add: extract_region_rows h_def)
  show ?thesis
    using f0 f1 f2 r unfolding h_def by (simp add: shape0_def extract_region_width)
qed

theorem extract_region_empty_cases_witness:
  "shape0 sample_image < 2 ^ 53
   \<and> \<bar>1 / 2 :: rat\<bar> \<le> 2 ^ 970 \<and> \<bar>1 / 4 :: rat\<bar> \<le> 2 ^ 970 \<and> \<bar>3 / 2 :: rat\<bar> \<le> 2 ^ 970
   \<and> (0::rat) \<le> 1 / 4 \<and> (1 / 4 :: rat) \<le> 1 / 2 \<and> (1::rat) \<le> 3 / 2
   \<and> shape0 (extract_region sample_image (1 / 2) (1 / 4)) = 0
   \<and> shape1 (extract_region sample_image (1 / 2) (1 / 4)) = 1
   \<and> shape0 (extract_region sample_image (3 / 2) (1 / 4)) = 0
   \<and> double_finite (float_mul (int_to_float (int (shape0 sample_image))) (3 / 2))"
proof -
  have n: "shape0 sample_image < 2 ^ 53" by (simp add: sample_image_shape)
  have b: "\<bar>1 / 2 :: rat\<bar> \<le> 2 ^ 970" "\<bar>1 / 4 :: rat\<bar> \<le> 2 ^ 970" "\<bar>3 / 2 :: rat\<bar> \<le> 2 ^ 970"
    by simp_all
  have c1: "(0 \<le> (1 / 4 :: rat) \<and> (1 / 4 :: rat) \<le> 1 / 2) \<or> (1::rat) \<le> 1 / 2 \<or> (1 / 4 :: rat) \<le> - 1"
    by simp
  have c2: "(0 \<le> (1 / 4 :: rat) \<and> (1 / 4 :: rat) \<le> 3 / 2) \<or> (1::rat) \<le> 3 / 2 \<or> (1 / 4 :: rat) \<le> - 1"
    by simp
  show ?thesis
    using extract_region_empty_cases [OF n b(1) b(2) c1]
          extract_region_empty_cases [OF n b(3) b(2) c2] n b
    by (simp add: sample_image_shape)
qed

lemma cv2_resize_shapes:
  "shape0 img \<noteq> 0 \<Longrightarrow> shape1 img \<noteq> 0 \<Longrightarrow> 0 < w \<Longrightarrow> 0 < h \<Longrightarrow>
   map_sum id (\<lambda>r. (shape0 r, shape1 r)) (cv2_resize X img w h m) = Inr (nat h, nat w)"
  by (simp add: cv2_resize_def shape0_def shape1_def)

lemma strip97_sizes:
  "py_int (float_mul (int_to_float 97) (int_truediv 800 97)) = 799"
  "py_int (float_mul (int_to_float 1) (int_truediv 800 97)) = 8"
  by code_simp+

text \<open>
  Claim C4 at a region of 97 rows and the default minimum of 800: the quotient \<open>800 / 97\<close>
  is rounded down, its product with 97 is the double just below 800, and the truncation
  makes the new height 799.  Whatever the interpolation kernel, the output is one row short
  of the minimum.
\<close>

theorem upscale_if_needed_below_minimum:
  "map_sum id (\<lambda>r. (shape0 r, shape1 r)) (upscale_if_needed X default_settings strip97)
     = Inr (799, 8)"
proof -
  have s: "shape0 strip97 = 97" "shape1 strip97 = 1"
    by (simp_all add: strip97_def shape0_def shape1_def)
  have m: "min_image_height default_settings = 800" by (simp add: default_settings_def)
  have "upscale_if_needed X default_settings strip97
          = cv2_resize X strip97 8 799 (interpolation_methods (upscale_method default_settings))"
    by (simp add: upscale_if_needed_def Let_def s m strip97_sizes)
  then show ?thesis using s by (simp add: cv2_resize_shapes)
qed

text \<open>The other two cases: no change at or above the minimum, a division by zero on an
  empty region.\<close>

lemma upscale_if_needed_no_op:
  "min_image_height S \<le> int (shape0 img) \<Longrightarrow> upscale_if_needed X S img = Inr img"
  by (simp add: upscale_if_needed_def Let_def)

lemma upscale_if_needed_empty_region:
  "shape0 img = 0 \<Longrightarrow> 0 < min_image_height S
     \<Longrightarrow> upscale_if_needed X S img = Inl ZeroDivisionError"
  by (simp add: upscale_if_needed_def Let_def)

section \<open>Glyph normalisation\<close>

lemma replace1_single: "replace1 k [v] t = map (\<lambda>c. if c = k then v else c) t"
  by (induction t) (simp_all add: replace1_def)

text \<open>
  Replacing the keys one after the other is the same as looking every character up in the
  table once, because no value of the table is one of its keys.
\<close>

lemma sequential_replace_is_table:
  assumes "snd ` set kvs \<inter> fst ` set kvs = {}"
  shows "foldl (\<lambda>t (lat, cyr). replace1 lat [cyr] t) s kvs = map (table_value kvs) s"
  using assms
proof (induction kvs arbitrary: s)
  case Nil
  show ?case by (simp add: table_value_def)
next
  case (Cons kv kvs)
  obtain k v where kv: "kv = (k, v)" by (cases kv)
  have disj: "snd ` set kvs \<inter> fst ` set kvs = {}" using Cons.prems by auto
  have vk: "v \<notin> fst ` set kvs" using Cons.prems kv by auto
  then have vnone: "map_of kvs v = None" by (simp add: map_of_eq_None_iff)
  have pt: "table_value kvs (if c = k then v else c) = table_value ((k, v) # kvs) c" for c
    by (simp add: table_value_def vnone)
  have "foldl (\<lambda>t (lat, cyr). replace1 lat [cyr] t) s (kv # kvs)
          = map (table_value kvs) (map (\<lambda>c. if c = k then v else c) s)"
    using Cons.IH [OF disj] by (simp add: kv replace1_single)
  also have "\<dots> = map (table_value (kv # kvs)) s"
    by (simp add: kv pt o_def)
  finally show ?case .
qed

lemma char_map_keys:
  "fst ` set char_map = {79, 111, 48, 66, 98, 65, 97, 69, 101, 75, 107, 77, 109, 72, 104,
                         80, 112, 67, 99, 84, 116, 89, 121, 88, 120}"
  by (simp add: char_map_def)

lemma char_map_values:
  "snd ` set char_map = {1054, 1086, 1042, 1074, 1040, 1072, 1045, 1077, 1050, 1082, 1052,
                         1084, 1053, 1085, 1056, 1088, 1057, 1089, 1058, 1090, 1059, 1091,
                         1061, 1093}"
  by (simp add: char_map_def insert_commute)

lemma char_map_separate: "snd ` set char_map \<inter> fst ` set char_map = {}"
  unfolding char_map_keys char_map_values by simp

lemma char_map_distinct: "distinct (map fst char_map)"
  by (simp add: char_map_def)

lemma normalize_as_map: "normalize_to_cyrillic text = map (table_value char_map) text"
  unfolding normalize_to_cyrillic_def by (rule sequential_replace_is_table [OF char_map_separate])

lemma table_value_key: "(k, v) \<in> set char_map \<Longrightarrow> table_value char_map k = v"
  using map_of_is_SomeI [OF char_map_distinct] by (simp add: table_value_def)

lemma table_value_other: "c \<notin> fst ` set char_map \<Longrightarrow> table_value char_map c = c"
proof -
  assume "c \<notin> fst ` set char_map"
  then have "map_of char_map c = None" using map_of_eq_None_iff [of char_map c] by blast
  then show ?thesis by (simp add: table_value_def)
qed

lemma table_value_twice: "table_value char_map (table_value char_map c) = table_value char_map c"
proof (cases "map_of char_map c")
  case None
  then show ?thesis by (simp add: table_value_def)
next
  case (Some v)
  then have "(c, v) \<in> set char_map" by (rule map_of_SomeD)
  then have "v \<in> snd ` set char_map" by force
  then have "v \<notin> fst ` set char_map" using char_map_separate by blast
  then have "table_value char_map v = v" by (rule table_value_other)
  then show ?thesis using Some by (simp add: table_value_def)
qed

lemma cyrillic_no_key: "cyrillic c \<Longrightarrow> c \<notin> fst ` set char_map"
  unfolding char_map_keys by (auto simp: cyrillic_def)

lemma normalize_example:
  "normalize_to_cyrillic (str ''B883BO799'') = [1042, 56, 56, 51, 1042, 1054, 55, 57, 57]"
  by (simp add: normalize_as_map str_def table_value_def char_map_def)

text \<open>
  Claim C5.  The normaliser leaves a text of Cyrillic characters as it is, and applying it
  twice is applying it once.  It keeps the length, puts at every position that holds a
  key of the table the value the table gives for that key, whatever stands around it, and
  leaves every other position alone.  The digit zero is a key, with the Cyrillic capital O
  (1054) as its value.  Normalising \<open>B883BO799\<close> gives a string with the Cyrillic capitals
  Ve (1042) and O (1054) in it.
\<close>

theorem normalize_to_cyrillic_table:
  "(list_all cyrillic text \<longrightarrow> normalize_to_cyrillic text = text)
   \<and> normalize_to_cyrillic (normalize_to_cyrillic text) = normalize_to_cyrillic text
   \<and> length (normalize_to_cyrillic text) = length text
   \<and> (\<forall>i k v. i < length text \<and> (k, v) \<in> set char_map \<and> text ! i = k
         \<longrightarrow> normalize_to_cyrillic text ! i = v)
   \<and> (\<forall>i. i < length text \<and> text ! i \<notin> fst ` set char_map
         \<longrightarrow> normalize_to_cyrillic text ! i = text ! i)
   \<and> 1042 \<in> set (normalize_to_cyrillic (str ''B883BO799''))
   \<and> 1054 \<in> set (normalize_to_cyrillic (str ''B883BO799''))"
proof -
  have 1: "list_all cyrillic text \<longrightarrow> normalize_to_cyrillic text = text"
  proof
    assume "list_all cyrillic text"
    then have "\<forall>c \<in> set text. table_value char_map c = c"
      using table_value_other [OF cyrillic_no_key] by (simp add: list_all_iff)
    then show "normalize_to_cyrillic text = text"
      by (simp add: normalize_as_map map_idI)
  qed
  have 2: "normalize_to_cyrillic (normalize_to_cyrillic text) = normalize_to_cyrillic text"
    by (simp add: normalize_as_map table_value_twice)
  have 3: "length (normalize_to_cyrillic text) = length text"
    by (simp add: normalize_as_map)
  have 4: "\<forall>i k v. i < length text \<and> (k, v) \<in> set char_map \<and> text ! i = k
             \<longrightarrow> normalize_to_cyrillic text ! i = v"
    by (auto simp: normalize_as_map table_value_key)
  have 5: "\<forall>i. i < length text \<and> text ! i \<notin> fst ` set char_map
             \<longrightarrow> normalize_to_cyrillic text ! i = text ! i"
    by (auto simp: normalize_as_map table_value_other)
  have 6: "1042 \<in> set (normalize_to_cyrillic (str ''B883BO799''))"
          "1054 \<in> set (normalize_to_cyrillic (str ''B883BO799''))"
    by (simp_all add: normalize_example)
  show ?thesis using 1 2 3 4 5 6 by blast
qed

theorem normalize_to_cyrillic_table_witness:
  "list_all cyrillic [1042, 1054] \<and> normalize_to_cyrillic [1042, 1054] = [1042, 1054]
   \<and> (1::nat) < length [1042, 48 :: nat] \<and> (48, 1054) \<in> set char_map
   \<and> normalize_to_cyrillic [1042, 48] ! 1 = 1054
   \<and> (0::nat) < length [1042, 48 :: nat] \<and> [1042, 48] ! 0 \<notin> fst ` set char_map
   \<and> normalize_to_cyrillic [1042, 48] ! 0 = 1042"
proof -
  have a: "list_all cyrillic [1042, 1054]" by (simp add: cyrillic_def)
  have b: "(48, 1054) \<in> set char_map" by (simp add: char_map_def)
  have c: "[1042, 48] ! 0 \<notin> fst ` set char_map" unfolding char_map_keys by simp
  have d: "[1042, 48 :: nat] ! 1 = 48" by simp
  from normalize_to_cyrillic_table [of "[1042, 1054]"] a
  have 1: "normalize_to_cyrillic [1042, 1054] = [1042, 1054]" by blast
  from normalize_to_cyrillic_table [of "[1042, 48]"]
  have 2: "\<forall>i k v. i < length [1042, 48 :: nat] \<and> (k, v) \<in> set char_map \<and> [1042, 48] ! i = k
             \<longrightarrow> normalize_to_cyrillic [1042, 48] ! i = v"
    and 3: "\<forall>i. i < length [1042, 48 :: nat] \<and> [1042, 48] ! i \<notin> fst ` set char_map
             \<longrightarrow> normalize_to_cyrillic [1042, 48] ! i = [1042, 48] ! i"
    by blast+
  have 4: "normalize_to_cyrillic [1042, 48] ! 1 = 1054" using 2 b d by simp
  have 5: "normalize_to_cyrillic [1042, 48] ! 0 = 1042" using 3 c by simp
  show ?thesis using a b c 1 4 5 by simp
qed

section \<open>Candidates, scores and the consensus\<close>

lemma strip_non_alnum_chars: "list_all upper_or_digit (strip_non_alnum s)"
  by (simp add: strip_non_alnum_def list_all_iff)

lemma windows17_member:
  "w \<in> set (windows17 c) \<Longrightarrow> length w = 17 \<and> set w \<subseteq> set c"
proof -
  assume "w \<in> set (windows17 c)"
  then obtain i where i: "i < length c - 16" and w: "w = take 17 (drop i c)"
    by (auto simp: windows17_def)
  have "length w = 17" using i w by simp
  moreover have "set w \<subseteq> set c"
    unfolding w using set_take_subset set_drop_subset by fast
  ultimately show ?thesis by simp
qed

lemma VIN_PATTERN_match_exact: "length w = 17 \<Longrightarrow> VIN_PATTERN_match w = list_all vin_char w"
  by (simp add: VIN_PATTERN_match_def)

lemma window_candidates_filter:
  "window_candidates c = filter (list_all vin_char) (windows17 c)"
  unfolding window_candidates_def
  by (rule filter_cong) (simp_all add: windows17_member VIN_PATTERN_match_exact)

lemma window_candidates_member:
  "w \<in> set (window_candidates c) \<Longrightarrow> length w = 17 \<and> list_all vin_char w"
  using windows17_member [of w c] by (simp add: window_candidates_filter)

lemma text_candidates_member:
  "w \<in> set (text_candidates U s) \<Longrightarrow> length w = 17 \<and> list_all vin_char w"
  unfolding text_candidates_def by (rule window_candidates_member)

lemma vin_char_alnum: "vin_char c \<Longrightarrow> upper_or_digit c \<and> c \<noteq> 73 \<and> c \<noteq> 79 \<and> c \<noteq> 81"
  by (auto simp: vin_char_def upper_or_digit_def)

lemma collect_candidates_from:
  "foldl (\<lambda>candidates r. case r of Inl e \<Rightarrow> candidates
                           | Inr s \<Rightarrow> candidates @ text_candidates U s) acc outcomes
     = acc @ concat (map (\<lambda>r. case r of Inl e \<Rightarrow> [] | Inr s \<Rightarrow> text_candidates U s) outcomes)"
  by (induction outcomes arbitrary: acc) (simp_all split: sum.splits)

lemma collect_candidates_concat:
  "collect_candidates U outcomes
     = concat (map (\<lambda>r. case r of Inl e \<Rightarrow> [] | Inr s \<Rightarrow> text_candidates U s) outcomes)"
  by (simp add: collect_candidates_def collect_candidates_from)

lemma collect_candidates_member:
  "w \<in> set (collect_candidates U outcomes) \<Longrightarrow> length w = 17 \<and> list_all vin_char w"
  by (auto simp: collect_candidates_concat split: sum.splits dest: text_candidates_member)

text \<open>
  Claim C2, as stated, fails: the cleaning keeps every capital Latin letter, the letters I,
  O and Q among them.  The text \<open>wp1zzz9pzola42290\<close> is cleaned to its upper-case form, its
  one window holds the letter O (79) and is not over the VIN alphabet.
\<close>

theorem vin_cleaning_keeps_ioq_counterexample:
  "windows17 (strip_non_alnum (upper ascii_db (str ''wp1zzz9pzola42290'')))
     = [str ''WP1ZZZ9PZOLA42290'']
   \<and> 79 \<in> set (str ''WP1ZZZ9PZOLA42290'')
   \<and> \<not> list_all vin_char (str ''WP1ZZZ9PZOLA42290'')"
  by code_simp

text \<open>
  Claim C2, amended.  Each text is uppercased and every character outside \<open>A-Z\<close> and
  \<open>0-9\<close> is stripped before the windows are taken, so every window has 17 characters over
  \<open>A-Z\<close> and \<open>0-9\<close>.  The windows may still hold I, O or Q: each is checked against the
  VIN pattern, the candidates are exactly the windows over the VIN alphabet, and every
  candidate is 17 characters of that alphabet.
\<close>

theorem vin_cleaning_then_pattern:
  "list_all upper_or_digit (strip_non_alnum (upper U s))
   \<and> list_all (\<lambda>w. length w = 17 \<and> list_all upper_or_digit w)
        (windows17 (strip_non_alnum (upper U s)))
   \<and> text_candidates U s
       = filter (list_all vin_char) (windows17 (strip_non_alnum (upper U s)))
   \<and> list_all (\<lambda>w. length w = 17 \<and> list_all vin_char w) (text_candidates U s)"
proof -
  have 1: "list_all upper_or_digit (strip_non_alnum (upper U s))"
    by (rule strip_non_alnum_chars)
  have 2: "list_all (\<lambda>w. length w = 17 \<and> list_all upper_or_digit w)
             (windows17 (strip_non_alnum (upper U s)))"
    using 1 windows17_member [of _ "strip_non_alnum (upper U s)"]
    by (auto simp: list_all_iff)
  have 3: "text_candidates U s
             = filter (list_all vin_char) (windows17 (strip_non_alnum (upper U s)))"
    by (simp add: text_candidates_def window_candidates_filter)
  have 4: "list_all (\<lambda>w. length w = 17 \<and> list_all vin_char w) (text_candidates U s)"
    using text_candidates_member [of _ U s] by (auto simp: list_all_iff)
  show ?thesis using 1 2 3 4 by simp
qed

theorem vin_cleaning_then_pattern_witness:
  "text_candidates ascii_db sample_text
     = filter (list_all vin_char) (windows17 (str ''VINWP1ZZZ9PZ9LA42290''))
   \<and> text_candidates ascii_db sample_text
       = [str ''NWP1ZZZ9PZ9LA4229'', str ''WP1ZZZ9PZ9LA42290'']"
proof -
  have c: "strip_non_alnum (upper ascii_db sample_text) = str ''VINWP1ZZZ9PZ9LA42290''"
    by code_simp
  have f: "filter (list_all vin_char) (windows17 (str ''VINWP1ZZZ9PZ9LA42290''))
             = [str ''NWP1ZZZ9PZ9LA4229'', str ''WP1ZZZ9PZ9LA42290'']"
    by code_simp
  show ?thesis using vin_cleaning_then_pattern [of ascii_db sample_text] c f by simp
qed

text \<open>
  What \<open>max\<close> returns: every element before the result has a strictly smaller key, every
  element after it a key not greater.
\<close>

lemma py_max_from_split:
  assumes "\<forall>x \<in> set pre. key x < key best" "\<forall>x \<in> set mid. key x \<le> key best"
  shows "\<exists>pre' suf. pre @ best # mid @ xs = pre' @ py_max_from key best xs # suf
            \<and> (\<forall>x \<in> set pre'. key x < key (py_max_from key best xs))
            \<and> (\<forall>x \<in> set suf. key x \<le> key (py_max_from key best xs))"
  using assms
proof (induction xs arbitrary: pre best mid)
  case Nil
  then show ?case by auto
next
  case (Cons x xs)
  show ?case
  proof (cases "key best < key x")
    case True
    have a: "\<forall>y \<in> set (pre @ best # mid). key y < key x"
      using Cons.prems True by fastforce
    have b: "\<forall>y \<in> set []. key y \<le> key x" by simp
    show ?thesis using Cons.IH [OF a b] True by simp
  next
    case False
    have b: "\<forall>y \<in> set (mid @ [x]). key y \<le> key best"
      using Cons.prems(2) False by auto
    show ?thesis using Cons.IH [OF Cons.prems(1) b] False by simp
  qed
qed

lemma py_max_split:
  assumes "py_max key xs = Some m"
  shows "\<exists>pre suf. xs = pre @ m # suf \<and> (\<forall>x \<in> set pre. key x < key m)
            \<and> (\<forall>x \<in> set suf. key x \<le> key m)"
proof (cases xs)
  case Nil
  with assms show ?thesis by (simp add: py_max_def)
next
  case (Cons x rest)
  then have m: "m = py_max_from key x rest" using assms by (simp add: py_max_def)
  show ?thesis
    using py_max_from_split [of "[]" key x "[]" rest] by (simp add: Cons m)
qed

lemma py_max_nonempty: "xs \<noteq> [] \<Longrightarrow> \<exists>m. py_max key xs = Some m"
  by (cases xs) (simp_all add: py_max_def)

lemma counter_add_map:
  "distinct F \<Longrightarrow>
   counter_add x (map (\<lambda>c. (c, f c)) F)
     = (if x \<in> set F then map (\<lambda>c. (c, if c = x then f c + 1 else f c)) F
        else map (\<lambda>c. (c, f c)) F @ [(x, 1)])"
  by (induction F) auto

lemma Counter_snoc: "Counter (xs @ [x]) = counter_add x (Counter xs)"
  by (simp add: Counter_def)

text \<open>
  The items of the counter are the distinct elements in the order of their first
  occurrence, each with its frequency.
\<close>

lemma Counter_items:
  "Counter xs = map (\<lambda>c. (c, count_list xs c)) (rev (remdups (rev xs)))"
proof (induction xs rule: rev_induct)
  case Nil
  show ?case by (simp add: Counter_def)
next
  case (snoc x xs)
  define F where "F = rev (remdups (rev xs))"
  have d: "distinct F" and sF: "set F = set xs" by (simp_all add: F_def)
  have F': "rev (remdups (rev (xs @ [x]))) = (if x \<in> set xs then F else F @ [x])"
    by (simp add: F_def)
  have "Counter (xs @ [x]) = counter_add x (map (\<lambda>c. (c, count_list xs c)) F)"
    using snoc.IH by (simp add: Counter_snoc F_def)
  also have "\<dots> = (if x \<in> set F
        then map (\<lambda>c. (c, if c = x then count_list xs c + 1 else count_list xs c)) F
        else map (\<lambda>c. (c, count_list xs c)) F @ [(x, 1)])"
    by (rule counter_add_map [OF d])
  also have "\<dots> = map (\<lambda>c. (c, count_list (xs @ [x]) c)) (rev (remdups (rev (xs @ [x]))))"
  proof (cases "x \<in> set xs")
    case True
    then show ?thesis unfolding F' by (simp add: sF)
  next
    case False
    then have "\<forall>c \<in> set F. c \<noteq> x" using sF by auto
    then show ?thesis unfolding F' using False by (auto simp: sF count_list_0_iff)
  qed
  finally show ?case .
qed

lemma remdups_append_split:
  "remdups (xs @ ys) = remdups [x \<leftarrow> xs. x \<notin> set ys] @ remdups ys"
  by (induction xs) auto

lemma takeWhile_upto_first: "w \<notin> set a \<Longrightarrow> takeWhile (\<lambda>x. x \<noteq> w) (a @ w # b) = a"
  by (induction a) auto

lemma firsts_split:
  assumes "w \<notin> set p"
  shows "\<exists>rest. rev (remdups (rev (p @ w # s))) = rev (remdups (rev p)) @ w # rest"
proof -
  have "remdups (rev s @ w # rev p)
          = remdups [x \<leftarrow> rev s. x \<notin> set (w # rev p)] @ remdups (w # rev p)"
    by (rule remdups_append_split)
  also have "remdups (w # rev p) = w # remdups (rev p)" using assms by simp
  finally show ?thesis by simp
qed

lemma distinct_split_unique:
  assumes "distinct (a @ w # b)" "a @ w # b = a' @ w # b'"
  shows "a = a'"
proof -
  have wa: "w \<notin> set a" using assms(1) by simp
  have "distinct (a' @ w # b')" using assms by simp
  then have wa': "w \<notin> set a'" by simp
  have "takeWhile (\<lambda>x. x \<noteq> w) (a @ w # b) = a" using wa by (rule takeWhile_upto_first)
  moreover have "takeWhile (\<lambda>x. x \<noteq> w) (a' @ w # b') = a'"
    using wa' by (rule takeWhile_upto_first)
  ultimately show ?thesis using assms(2) by simp
qed

lemma consensus_None: "collect_candidates U outcomes = [] \<Longrightarrow> consensus U outcomes = None"
  by (simp add: consensus_def)

lemma Counter_nonempty: "xs \<noteq> [] \<Longrightarrow> Counter xs \<noteq> []"
  by (simp add: Counter_items)

lemma consensus_Some:
  "collect_candidates U outcomes \<noteq> [] \<Longrightarrow> \<exists>w. consensus U outcomes = Some w"
  using py_max_nonempty [OF Counter_nonempty, of "collect_candidates U outcomes" "combined_score U"]
  by (auto simp: consensus_def Let_def)

lemma consensus_winner:
  assumes "consensus U outcomes = Some w"
  defines "cands \<equiv> collect_candidates U outcomes"
  defines "K \<equiv> \<lambda>c. combined_score U (c, count_list cands c)"
  shows "\<exists>pre suf. cands = pre @ w # suf \<and> w \<notin> set pre
           \<and> (\<forall>c \<in> set pre. K c < K w) \<and> (\<forall>c \<in> set suf. K c \<le> K w)"
proof -
  define F where "F = rev (remdups (rev cands))"
  define g where "g = (\<lambda>c. (c, count_list cands c))"
  have items: "Counter cands = map g F" by (simp add: Counter_items F_def g_def)
  have dF: "distinct F" and sF: "set F = set cands" by (simp_all add: F_def)
  from assms(1) obtain m where m: "py_max (combined_score U) (map g F) = Some m" and w: "w = fst m"
    by (auto simp: consensus_def Let_def cands_def [symmetric] items split: if_splits)
  from py_max_split [OF m] obtain P Q where
    PQ: "map g F = P @ m # Q"
    and kP: "\<forall>x \<in> set P. combined_score U x < combined_score U m"
    and kQ: "\<forall>x \<in> set Q. combined_score U x \<le> combined_score U m"
    by blast
  from PQ obtain P' w' Q' where F: "F = P' @ w' # Q'" and P: "P = map g P'"
    and mw: "m = g w'" and Q: "Q = map g Q'"
    by (auto simp: map_eq_append_conv map_eq_Cons_conv)
  have ww: "w' = w" using w mw by (simp add: g_def)
  have Kw: "combined_score U m = K w" using mw ww by (simp add: g_def K_def)
  have kP': "\<forall>c \<in> set P'. K c < K w" using kP P Kw by (simp add: g_def K_def)
  have kQ': "\<forall>c \<in> set Q'. K c \<le> K w" using kQ Q Kw by (simp add: g_def K_def)
  have "w \<in> set cands" using F ww sF by auto
  then obtain p s where ps: "cands = p @ w # s" and wp: "w \<notin> set p"
    by (auto dest: split_list_first)
  from firsts_split [OF wp, of s] obtain rest where
    "F = rev (remdups (rev p)) @ w # rest" by (auto simp: F_def ps)
  then have "P' = rev (remdups (rev p))"
    using distinct_split_unique [of P' w Q' "rev (remdups (rev p))" rest] dF F ww by simp
  then have sp: "set p = set P'" by simp
  have 1: "\<forall>c \<in> set p. K c < K w" using kP' sp by simp
  have "\<forall>c \<in> set cands. K c \<le> K w"
  proof
    fix c assume "c \<in> set cands"
    then have "c \<in> set P' \<or> c = w \<or> c \<in> set Q'" using sF F ww by auto
    then show "K c \<le> K w" using kP' kQ' by (auto intro: less_imp_le)
  qed
  then have 2: "\<forall>c \<in> set s. K c \<le> K w" using ps by simp
  show ?thesis using ps wp 1 2 by blast
qed

lemma py_slice_serial: "length c = 17 \<Longrightarrow> py_slice c 9 17 = drop (length c - 8) c"
  by (simp add: py_slice_def slice_index_def Let_def)

lemma struct_score_spec: "length c = 17 \<Longrightarrow> struct_score U c = spec_structural_score U c"
  by (simp add: struct_score_def spec_structural_score_def serial_digits_def py_slice_serial)

lemma combined_score_spec:
  "length c = 17 \<Longrightarrow> combined_score U (c, n) = n * 10 + spec_structural_score U c"
  by (simp add: combined_score_def struct_score_spec)

text \<open>
  Claim C1.  With no candidate the result is absent; with candidates there is a winner.
  The winner \<open>w\<close> occurs among the candidates, every candidate seen before its first
  occurrence has a strictly smaller score and every other candidate a score not greater:
  the highest score wins, and among equal scores the candidate seen first.  The score of a
  candidate is ten times its frequency plus the structural score of the specification:
  \<open>combined_score\<close> computes \<open>count * 10\<close> plus 5 for an alphabetic first character plus the
  number of digits among the final 8 characters.  The selection is a function of the ordered
  list of candidates alone: two sweeps with the same candidates select the same winner.
\<close>

theorem consensus_selects_highest_score:
  "(collect_candidates U outcomes = [] \<longrightarrow> consensus U outcomes = None)
   \<and> (collect_candidates U outcomes \<noteq> [] \<longrightarrow> (\<exists>b. consensus U outcomes = Some b))
   \<and> (consensus U outcomes = Some w \<longrightarrow>
        (\<exists>pre suf. collect_candidates U outcomes = pre @ w # suf \<and> w \<notin> set pre
           \<and> (\<forall>c \<in> set pre. spec_combined_score U (collect_candidates U outcomes) c
                              < spec_combined_score U (collect_candidates U outcomes) w)
           \<and> (\<forall>c \<in> set suf. spec_combined_score U (collect_candidates U outcomes) c
                              \<le> spec_combined_score U (collect_candidates U outcomes) w)))
   \<and> (\<forall>c n. length c = 17 \<longrightarrow> combined_score U (c, n) = n * 10 + spec_structural_score U c)
   \<and> (collect_candidates U outcomes = collect_candidates U outcomes'
        \<longrightarrow> consensus U outcomes = consensus U outcomes')"
proof -
  define cands where "cands = collect_candidates U outcomes"
  have K: "combined_score U (c, count_list cands c) = spec_combined_score U cands c"
    if "c \<in> set cands" for c
  proof -
    have "length c = 17" using that collect_candidates_member [of c U outcomes]
      by (simp add: cands_def)
    then show ?thesis by (simp add: combined_score_spec spec_combined_score_def)
  qed
  have 3: "\<exists>pre suf. cands = pre @ w # suf \<and> w \<notin> set pre
           \<and> (\<forall>c \<in> set pre. spec_combined_score U cands c < spec_combined_score U cands w)
           \<and> (\<forall>c \<in> set suf. spec_combined_score U cands c \<le> spec_combined_score U cands w)"
    if a: "consensus U outcomes = Some w"
  proof -
    from consensus_winner [OF a] obtain pre suf where
      s: "cands = pre @ w # suf" and wp: "w \<notin> set pre"
      and p: "\<forall>c \<in> set pre. combined_score U (c, count_list cands c)
                 < combined_score U (w, count_list cands w)"
      and q: "\<forall>c \<in> set suf. combined_score U (c, count_list cands c)
                 \<le> combined_score U (w, count_list cands w)"
      unfolding cands_def by blast
    have mw: "w \<in> set cands" and mp: "\<forall>c \<in> set pre. c \<in> set cands"
      and ms: "\<forall>c \<in> set suf. c \<in> set cands"
      unfolding s by simp_all
    have Kw: "combined_score U (w, count_list cands w) = spec_combined_score U cands w"
      using mw by (rule K)
    have "\<forall>c \<in> set pre. spec_combined_score U cands c < spec_combined_score U cands w"
    proof
      fix c assume c: "c \<in> set pre"
      then have "c \<in> set cands" using mp by blast
      then have "combined_score U (c, count_list cands c) = spec_combined_score U cands c"
        by (rule K)
      then show "spec_combined_score U cands c < spec_combined_score U cands w"
        using p c Kw by metis
    qed
    moreover have "\<forall>c \<in> set suf. spec_combined_score U cands c \<le> spec_combined_score U cands w"
    proof
      fix c assume c: "c \<in> set suf"
      then have "c \<in> set cands" using ms by blast
      then have "combined_score U (c, count_list cands c) = spec_combined_score U cands c"
        by (rule K)
      then show "spec_combined_score U cands c \<le> spec_combined_score U cands w"
        using q c Kw by metis
    qed
    ultimately show ?thesis using s wp by blast
  qed
  have 5: "consensus U outcomes = consensus U outcomes'"
    if "collect_candidates U outcomes = collect_candidates U outcomes'"
    using that by (simp add: consensus_def)
  show ?thesis
    using consensus_None [of U outcomes] consensus_Some [of U outcomes] 3 5
      combined_score_spec [of _ U]
    unfolding cands_def by blast
qed

lemma sample_consensus:
  "collect_candidates ascii_db [Inr sample_text, Inl TesseractError, Inr sample_text]
     = [str ''NWP1ZZZ9PZ9LA4229'', str ''WP1ZZZ9PZ9LA42290'',
        str ''NWP1ZZZ9PZ9LA4229'', str ''WP1ZZZ9PZ9LA42290'']"
  "consensus ascii_db [Inr sample_text, Inl TesseractError, Inr sample_text]
     = Some (str ''WP1ZZZ9PZ9LA42290'')"
  by code_simp+

theorem consensus_selects_highest_score_witness:
  "consensus ascii_db [Inr sample_text, Inl TesseractError, Inr sample_text]
     = Some (str ''WP1ZZZ9PZ9LA42290'')
   \<and> collect_candidates ascii_db [Inr sample_text, Inl TesseractError, Inr sample_text] \<noteq> []
   \<and> length (str ''WP1ZZZ9PZ9LA42290'') = 17
   \<and> combined_score ascii_db (str ''WP1ZZZ9PZ9LA42290'', 2)
       = 2 * 10 + spec_structural_score ascii_db (str ''WP1ZZZ9PZ9LA42290'')
   \<and> (\<exists>pre suf.
         collect_candidates ascii_db [Inr sample_text, Inl TesseractError, Inr sample_text]
           = pre @ str ''WP1ZZZ9PZ9LA42290'' # suf
         \<and> str ''WP1ZZZ9PZ9LA42290'' \<notin> set pre
         \<and> (\<forall>c \<in> set pre.
               spec_combined_score ascii_db
                 (collect_candidates ascii_db [Inr sample_text, Inl TesseractError, Inr sample_text]) c
               < spec_combined_score ascii_db
                   (collect_candidates ascii_db [Inr sample_text, Inl TesseractError, Inr sample_text])
                   (str ''WP1ZZZ9PZ9LA42290''))
         \<and> (\<forall>c \<in> set suf.
               spec_combined_score ascii_db
                 (collect_candidates ascii_db [Inr sample_text, Inl TesseractError, Inr sample_text]) c
               \<le> spec_combined_score ascii_db
                   (collect_candidates ascii_db [Inr sample_text, Inl TesseractError, Inr sample_text])
                   (str ''WP1ZZZ9PZ9LA42290'')))"
proof -
  have l: "length (str ''WP1ZZZ9PZ9LA42290'') = 17" by (simp add: str_def)
  have n: "collect_candidates ascii_db [Inr sample_text, Inl TesseractError, Inr sample_text] \<noteq> []"
    by (simp add: sample_consensus(1))
  show ?thesis
    using consensus_selects_highest_score
            [of ascii_db "[Inr sample_text, Inl TesseractError, Inr sample_text]"
                "str ''WP1ZZZ9PZ9LA42290''"]
          sample_consensus(2) l n
    by blast
qed

lemma collect_candidates_append:
  "collect_candidates U (xs @ ys) = collect_candidates U xs @ collect_candidates U ys"
  by (simp add: collect_candidates_concat)

lemma collect_candidates_failed:
  assumes "i < length outcomes"
  shows "collect_candidates U (outcomes[i := Inl e])
           = collect_candidates U (take i outcomes) @ collect_candidates U (drop (Suc i) outcomes)"
proof -
  have "outcomes[i := Inl e] = take i outcomes @ Inl e # drop (Suc i) outcomes"
    using assms by (rule upd_conv_take_nth_drop)
  then show ?thesis by (simp add: collect_candidates_concat)
qed

lemma cv2_resize_ocr: "cv2_resize (X\<lparr>x_ocr := f\<rparr>) img w h m = cv2_resize X img w h m"
  by (simp add: cv2_resize_def)

lemma to_gray_ocr: "to_gray (X\<lparr>x_ocr := f\<rparr>) img = to_gray X img"
  by (simp add: to_gray_def)

lemma variant_image_ocr:
  "variant_image (X\<lparr>x_ocr := f\<rparr>) region clip tile scale = variant_image X region clip tile scale"
  unfolding variant_image_def cv2_resize_ocr to_gray_ocr
  by (simp split: sum.splits)

lemma sweep_ocr_failures:
  "isl (sweep (X\<lparr>x_ocr := f\<rparr>) S region variants) = isl (sweep X S region variants)"
  by (induction X S region variants rule: sweep.induct)
     (auto simp: variant_image_ocr split: sum.splits)

lemma sweep_length:
  "sweep X S region variants = Inr outs \<Longrightarrow> length outs = length psm_modes * length variants"
  by (induction X S region variants arbitrary: outs rule: sweep.induct)
     (auto split: sum.splits)

section \<open>The plate pattern and plate extraction\<close>

















section \<open>Extracted numbers\<close>

lemma py_max_member: "py_max key xs = Some m \<Longrightarrow> m \<in> set xs"
  using py_max_split [of key xs m] by auto

lemma vin_of_outcomes_member:
  "vin_of_outcomes U outcomes = Some v \<Longrightarrow> v \<in> set (collect_candidates U outcomes)"
  by (auto simp: vin_of_outcomes_def Let_def split: if_splits dest: py_max_member)

lemma consensus_member:
  "consensus U outcomes = Some v \<Longrightarrow> v \<in> set (collect_candidates U outcomes)"
  using consensus_winner [of U outcomes v] by auto

lemma extract_vin_outcomes:
  "extract_vin X U S img = Inr r \<Longrightarrow> \<exists>outcomes. r = vin_of_outcomes U outcomes"
  by (auto simp: extract_vin_def Let_def split: sum.splits)

lemma extract_body_number_outcomes:
  "extract_body_number X U S img = Inr r \<Longrightarrow> \<exists>outcomes. r = consensus U outcomes"
  by (auto simp: extract_body_number_def extract_with_multiple_strategies_def Let_def
           split: sum.splits)

lemma candidate_shape:
  assumes "v \<in> set (collect_candidates U outcomes)"
  shows "length v = 17
         \<and> list_all (\<lambda>c. (48 \<le> c \<and> c \<le> 57)
                         \<or> (65 \<le> c \<and> c \<le> 90 \<and> c \<noteq> 73 \<and> c \<noteq> 79 \<and> c \<noteq> 81)) v
         \<and> VIN_PATTERN_match v"
proof -
  have l: "length v = 17" and a: "list_all vin_char v"
    using collect_candidates_member [OF assms] by simp_all
  have "list_all (\<lambda>c. (48 \<le> c \<and> c \<le> 57)
                      \<or> (65 \<le> c \<and> c \<le> 90 \<and> c \<noteq> 73 \<and> c \<noteq> 79 \<and> c \<noteq> 81)) v"
    using a by (auto simp: list_all_iff vin_char_def)
  then show ?thesis using l a by (simp add: VIN_PATTERN_match_exact)
qed

text \<open>
  Claim C10.  Whenever VIN extraction or body-number extraction returns a string, whatever
  the collaborators and so whatever the OCR engine reads, the string has exactly 17
  characters, each a digit or a capital Latin letter other than I, O and Q, and it passes
  the VIN pattern.  The same holds from the OCR outcomes on.
\<close>

theorem extracted_numbers_match_vin_pattern:
  "(extract_vin X U S img = Inr (Some v)
      \<longrightarrow> length v = 17
          \<and> list_all (\<lambda>c. (48 \<le> c \<and> c \<le> 57)
                          \<or> (65 \<le> c \<and> c \<le> 90 \<and> c \<noteq> 73 \<and> c \<noteq> 79 \<and> c \<noteq> 81)) v
          \<and> VIN_PATTERN_match v)
   \<and> (extract_body_number X U S img = Inr (Some b)
      \<longrightarrow> length b = 17
          \<and> list_all (\<lambda>c. (48 \<le> c \<and> c \<le> 57)
                          \<or> (65 \<le> c \<and> c \<le> 90 \<and> c \<noteq> 73 \<and> c \<noteq> 79 \<and> c \<noteq> 81)) b
          \<and> VIN_PATTERN_match b)
   \<and> (vin_of_outcomes U outcomes = Some v'
      \<longrightarrow> length v' = 17
          \<and> list_all (\<lambda>c. (48 \<le> c \<and> c \<le> 57)
                          \<or> (65 \<le> c \<and> c \<le> 90 \<and> c \<noteq> 73 \<and> c \<noteq> 79 \<and> c \<noteq> 81)) v'
          \<and> VIN_PATTERN_match v')
   \<and> (consensus U outcomes = Some b'
      \<longrightarrow> length b' = 17
          \<and> list_all (\<lambda>c. (48 \<le> c \<and> c \<le> 57)
                          \<or> (65 \<le> c \<and> c \<le> 90 \<and> c \<noteq> 73 \<and> c \<noteq> 79 \<and> c \<noteq> 81)) b'
          \<and> VIN_PATTERN_match b')"
proof (intro conjI impI)
  assume "extract_vin X U S img = Inr (Some v)"
  then obtain outs where "vin_of_outcomes U outs = Some v"
    using extract_vin_outcomes by metis
  then have "v \<in> set (collect_candidates U outs)" by (rule vin_of_outcomes_member)
  then have c: "length v = 17
         \<and> list_all (\<lambda>c. (48 \<le> c \<and> c \<le> 57)
                         \<or> (65 \<le> c \<and> c \<le> 90 \<and> c \<noteq> 73 \<and> c \<noteq> 79 \<and> c \<noteq> 81)) v
         \<and> VIN_PATTERN_match v" by (rule candidate_shape)
  show "length v = 17" using c by simp
  show "list_all (\<lambda>c. (48 \<le> c \<and> c \<le> 57)
                     \<or> (65 \<le> c \<and> c \<le> 90 \<and> c \<noteq> 73 \<and> c \<noteq> 79 \<and> c \<noteq> 81)) v" using c by simp
  show "VIN_PATTERN_match v" using c by simp
next
  assume "extract_body_number X U S img = Inr (Some b)"
  then obtain outs where "consensus U outs = Some b"
    using extract_body_number_outcomes by metis
  then have "b \<in> set (collect_candidates U outs)" by (rule consensus_member)
  then have c: "length b = 17
         \<and> list_all (\<lambda>c. (48 \<le> c \<and> c \<le> 57)
                         \<or> (65 \<le> c \<and> c \<le> 90 \<and> c \<noteq> 73 \<and> c \<noteq> 79 \<and> c \<noteq> 81)) b
         \<and> VIN_PATTERN_match b" by (rule candidate_shape)
  show "length b = 17" using c by simp
  show "list_all (\<lambda>c. (48 \<le> c \<and> c \<le> 57)
                     \<or> (65 \<le> c \<and> c \<le> 90 \<and> c \<noteq> 73 \<and> c \<noteq> 79 \<and> c \<noteq> 81)) b" using c by simp
  show "VIN_PATTERN_match b" using c by simp
next
  assume "vin_of_outcomes U outcomes = Some v'"
  then have "v' \<in> set (collect_candidates U outcomes)" by (rule vin_of_outcomes_member)
  then have c: "length v' = 17
         \<and> list_all (\<lambda>c. (48 \<le> c \<and> c \<le> 57)
                         \<or> (65 \<le> c \<and> c \<le> 90 \<and> c \<noteq> 73 \<and> c \<noteq> 79 \<and> c \<noteq> 81)) v'
         \<and> VIN_PATTERN_match v'" by (rule candidate_shape)
  show "length v' = 17" using c by simp
  show "list_all (\<lambda>c. (48 \<le> c \<and> c \<le> 57)
                     \<or> (65 \<le> c \<and> c \<le> 90 \<and> c \<noteq> 73 \<and> c \<noteq> 79 \<and> c \<noteq> 81)) v'" using c by simp
  show "VIN_PATTERN_match v'" using c by simp
next
  assume "consensus U outcomes = Some b'"
  then have "b' \<in> set (collect_candidates U outcomes)" by (rule consensus_member)
  then have c: "length b' = 17
         \<and> list_all (\<lambda>c. (48 \<le> c \<and> c \<le> 57)
                         \<or> (65 \<le> c \<and> c \<le> 90 \<and> c \<noteq> 73 \<and> c \<noteq> 79 \<and> c \<noteq> 81)) b'
         \<and> VIN_PATTERN_match b'" by (rule candidate_shape)
  show "length b' = 17" using c by simp
  show "list_all (\<lambda>c. (48 \<le> c \<and> c \<le> 57)
                     \<or> (65 \<le> c \<and> c \<le> 90 \<and> c \<noteq> 73 \<and> c \<noteq> 79 \<and> c \<noteq> 81)) b'" using c by simp
  show "VIN_PATTERN_match b'" using c by simp
qed

text \<open>
  The sample page through the body-number sweep: every variant has an image and every pass
  reads the sample text.
\<close>

lemma sweep_all_passes:
  assumes "\<And>clip tile scale. ((clip, tile), scale) \<in> set variants
             \<Longrightarrow> \<exists>enhanced. variant_image X region clip tile scale = Inr enhanced"
      and r: "\<And>img psm. x_ocr X img (tesseract_lang S) psm = r"
  shows "sweep X S region variants = Inr (replicate (length psm_modes * length variants) r)"
  using assms(1)
proof (induction variants)
  case Nil
  show ?case by simp
next
  case (Cons v variants)
  obtain clip tile scale where v: "v = ((clip, tile), scale)" by (metis prod.exhaust)
  obtain enhanced where e: "variant_image X region clip tile scale = Inr enhanced"
    using Cons.prems [of clip tile scale] v by auto
  have "sweep X S region variants = Inr (replicate (length psm_modes * length variants) r)"
    using Cons.IH Cons.prems by simp
  then show ?case
    using e by (simp add: v r psm_modes_def replicate_add [symmetric])
qed

lemma variant_image_succeeds:
  assumes "shape0 region \<noteq> 0" "shape1 region \<noteq> 0"
      and "0 < py_int (float_mul (int_to_float (int (shape0 region))) scale)"
      and "0 < py_int (float_mul (int_to_float (int (shape1 region))) scale)"
      and "\<And>img. \<exists>gray. to_gray X img = Inr gray"
      and "\<And>img. \<exists>enhanced. x_clahe X clip tile img = Inr enhanced"
  shows "\<exists>enhanced. variant_image X region clip tile scale = Inr enhanced"
proof -
  have "\<exists>scaled.
    (if scale \<noteq> 1
      then (let new_h = py_int (float_mul (int_to_float (int (shape0 region))) scale);
                new_w = py_int (float_mul (int_to_float (int (shape1 region))) scale)
            in cv2_resize X region new_w new_h INTER_CUBIC)
      else Inr region) = Inr scaled"
  proof (cases "scale = 1")
    case True
    then show ?thesis by simp
  next
    case False
    have "\<not> (shape0 region = 0 \<or> shape1 region = 0
             \<or> py_int (float_mul (int_to_float (int (shape1 region))) scale) \<le> 0
             \<or> py_int (float_mul (int_to_float (int (shape0 region))) scale) \<le> 0)"
      using assms(1-4) by simp
    then show ?thesis using False by (simp add: cv2_resize_def Let_def)
  qed
  then obtain scaled where s:
    "(if scale \<noteq> 1
      then (let new_h = py_int (float_mul (int_to_float (int (shape0 region))) scale);
                new_w = py_int (float_mul (int_to_float (int (shape1 region))) scale)
            in cv2_resize X region new_w new_h INTER_CUBIC)
      else Inr region) = Inr scaled" by blast
  obtain gray where g: "to_gray X scaled = Inr gray" using assms(5) by blast
  obtain enhanced where e: "x_clahe X clip tile gray = Inr enhanced" using assms(6) by blast
  show ?thesis unfolding variant_image_def s by (simp add: g e)
qed

lemma sample_region:
  "extract_region sample_image (1 / 2) (3 / 4)
     = \<lparr>img_rows = replicate 4 [0], img_width = 1, img_ndim = 2\<rparr>"
  by code_simp

lemma sample_scaled_sizes:
  "0 < py_int (float_mul (int_to_float 4) 2)" "0 < py_int (float_mul (int_to_float 1) 2)"
  "0 < py_int (float_mul (int_to_float 4) (5 / 2))" "0 < py_int (float_mul (int_to_float 1) (5 / 2))"
  "0 < py_int (float_mul (int_to_float 4) 3)" "0 < py_int (float_mul (int_to_float 1) 3)"
  by code_simp+

lemma sample_sweep:
  "sweep sample_extern sample_settings (extract_region sample_image (1 / 2) (3 / 4))
     (List.product clahe_params
        (scale_factors (shape0 (extract_region sample_image (1 / 2) (3 / 4)))))
   = Inr (replicate 36 (Inr sample_text))"
proof -
  define region where "region = extract_region sample_image (1 / 2) (3 / 4)"
  have sh: "shape0 region = 4" "shape1 region = 1"
    by (simp_all add: region_def sample_region shape0_def shape1_def)
  have ok: "\<exists>enhanced. variant_image sample_extern region clip tile scale = Inr enhanced"
    if "((clip, tile), scale) \<in> set (List.product clahe_params (scale_factors 4))"
    for clip tile scale
  proof -
    have sc: "scale = 2 \<or> scale = 5 / 2 \<or> scale = 3"
      using that by (auto simp: scale_factors_def)
    have p0: "0 < py_int (float_mul (int_to_float (int (shape0 region))) scale)"
      unfolding sh using sc by (elim disjE) (simp_all only: sample_scaled_sizes of_nat_numeral)
    have p1: "0 < py_int (float_mul (int_to_float (int (shape1 region))) scale)"
      unfolding sh using sc by (elim disjE) (simp_all only: sample_scaled_sizes of_nat_1)
    show ?thesis
      by (rule variant_image_succeeds [OF _ _ p0 p1])
         (simp_all add: sh to_gray_def sample_extern_def)
  qed
  have n: "length psm_modes * length (List.product clahe_params (scale_factors 4)) = 36"
    by (simp add: psm_modes_def clahe_params_def scale_factors_def)
  have main: "sweep sample_extern sample_settings region
                (List.product clahe_params (scale_factors 4))
          = Inr (replicate
                   (length psm_modes * length (List.product clahe_params (scale_factors 4)))
                   (Inr sample_text))"
    by (rule sweep_all_passes [OF ok]) (simp_all add: sample_extern_def)
  show ?thesis
    unfolding region_def [symmetric] sh by (rule main [unfolded n])
qed

lemma sample_consensus_36:
  "consensus ascii_db (replicate 36 (Inr sample_text)) = Some (str ''WP1ZZZ9PZ9LA42290'')"
  by code_simp

lemma sample_extraction:
  "extract_vin sample_extern ascii_db sample_settings sample_image
     = Inr (Some (str ''WP1ZZZ9PZ9LA42290''))"
  "extract_body_number sample_extern ascii_db sample_settings sample_image
     = Inr (Some (str ''WP1ZZZ9PZ9LA42290''))"
proof -
  show "extract_vin sample_extern ascii_db sample_settings sample_image
          = Inr (Some (str ''WP1ZZZ9PZ9LA42290''))"
    by code_simp
  have w: "body_number_region_start sample_settings = 1 / 2"
    "body_number_region_end sample_settings = 3 / 4"
    by (simp_all add: sample_settings_def)
  show "extract_body_number sample_extern ascii_db sample_settings sample_image
          = Inr (Some (str ''WP1ZZZ9PZ9LA42290''))"
    unfolding extract_body_number_def extract_with_multiple_strategies_def Let_def w
      sample_sweep
    by (simp add: sample_consensus_36)
qed

theorem extracted_numbers_match_vin_pattern_witness:
  "extract_vin sample_extern ascii_db sample_settings sample_image
     = Inr (Some (str ''WP1ZZZ9PZ9LA42290''))
   \<and> extract_body_number sample_extern ascii_db sample_settings sample_image
     = Inr (Some (str ''WP1ZZZ9PZ9LA42290''))
   \<and> length (str ''WP1ZZZ9PZ9LA42290'') = 17
   \<and> VIN_PATTERN_match (str ''WP1ZZZ9PZ9LA42290'')"
  using extracted_numbers_match_vin_pattern
          [of sample_extern ascii_db sample_settings sample_image "str ''WP1ZZZ9PZ9LA42290''"
              "str ''WP1ZZZ9PZ9LA42290''"]
        sample_extraction
  by blast

section \<open>The sweep and a failing pass\<close>

lemma variant_images_Cons:
  "variant_images X region (((clip, tile), scale) # variants)
     = variant_image X region clip tile scale # variant_images X region variants"
  by (simp add: variant_images_def)

lemma pass_outcomes_Cons:
  "pass_outcomes X S (enhanced # images)
     = map (\<lambda>psm. x_ocr X enhanced (tesseract_lang S) psm) psm_modes @ pass_outcomes X S images"
  by (simp add: pass_outcomes_def)

text \<open>
  The sweep returns exactly when every variant has an enhanced image, and then its outcomes
  are the answers of the engine, pass by pass: a pass that failed stands in the list as a
  failure and changes nothing about the passes before and after it.
\<close>

lemma sweep_outcomes:
  "(sweep X S region variants = Inr outs)
     = (\<exists>images. variant_images X region variants = map Inr images
                 \<and> outs = pass_outcomes X S images)"
proof (induction variants arbitrary: outs)
  case Nil
  show ?case by (auto simp: variant_images_def pass_outcomes_def)
next
  case (Cons v variants)
  obtain clip tile scale where v: "v = ((clip, tile), scale)" by (metis prod.exhaust)
  show ?case
  proof (cases "variant_image X region clip tile scale")
    case (Inl e)
    then show ?thesis by (auto simp: v variant_images_Cons map_eq_Cons_conv)
  next
    case (Inr enhanced)
    show ?thesis
    proof (cases "sweep X S region variants")
      case (Inl e)
      have "\<nexists>images. variant_images X region variants = map Inr images"
        using Cons.IH Inl by (metis sum.distinct(1))
      then show ?thesis
        using Inl Inr by (auto simp: v variant_images_Cons map_eq_Cons_conv)
    next
      case rest: (Inr outcomes)
      then obtain images where i: "variant_images X region variants = map Inr images"
        and o: "outcomes = pass_outcomes X S images"
        using Cons.IH by blast
      have u: "images' = images" if "variant_images X region variants = map Inr images'" for images'
        using that i by (simp add: inj_map_eq_map)
      show ?thesis
      proof
        assume "sweep X S region (v # variants) = Inr outs"
        then have "outs = pass_outcomes X S (enhanced # images)"
          using Inr rest o by (simp add: v pass_outcomes_Cons)
        moreover have "variant_images X region (v # variants) = map Inr (enhanced # images)"
          using Inr i by (simp add: v variant_images_Cons)
        ultimately show "\<exists>images. variant_images X region (v # variants) = map Inr images
                           \<and> outs = pass_outcomes X S images" by blast
      next
        assume "\<exists>images. variant_images X region (v # variants) = map Inr images
                  \<and> outs = pass_outcomes X S images"
        then obtain images' where a: "variant_images X region (v # variants) = map Inr images'"
          and b: "outs = pass_outcomes X S images'" by blast
        from a obtain rest' where "images' = enhanced # rest'"
          and "variant_images X region variants = map Inr rest'"
          using Inr by (auto simp: v variant_images_Cons map_eq_Cons_conv)
        then have "images' = enhanced # images" using u by simp
        then show "sweep X S region (v # variants) = Inr outs"
          using Inr rest o b by (simp add: v pass_outcomes_Cons)
      qed
    qed
  qed
qed

lemma length_pass_outcomes:
  "length (pass_outcomes X S images) = length psm_modes * length images"
  by (induction images) (simp_all add: pass_outcomes_def)

lemma pass_outcomes_nth:
  "k < length images \<Longrightarrow> j < length psm_modes \<Longrightarrow>
   pass_outcomes X S images ! (k * length psm_modes + j)
     = x_ocr X (images ! k) (tesseract_lang S) (psm_modes ! j)"
proof (induction images arbitrary: k)
  case Nil
  then show ?case by simp
next
  case (Cons enhanced images)
  show ?case
  proof (cases k)
    case 0
    then show ?thesis using Cons.prems by (simp add: pass_outcomes_Cons nth_append)
  next
    case (Suc k')
    then have "k' < length images" using Cons.prems by simp
    then have "pass_outcomes X S images ! (k' * length psm_modes + j)
                 = x_ocr X (images ! k') (tesseract_lang S) (psm_modes ! j)"
      using Cons.IH Cons.prems(2) by blast
    then show ?thesis using Suc by (simp add: pass_outcomes_Cons nth_append)
  qed
qed

lemma variant_images_ocr:
  "variant_images (X\<lparr>x_ocr := f\<rparr>) region variants = variant_images X region variants"
  by (simp add: variant_images_def variant_image_ocr)

lemma extract_with_multiple_strategies_outcomes:
  assumes "extract_with_multiple_strategies X U S img region_start region_end = Inr r"
  shows "\<exists>images.
           variant_images X (extract_region img region_start region_end)
             (List.product clahe_params
                (scale_factors (shape0 (extract_region img region_start region_end))))
             = map Inr images
           \<and> r = consensus U (pass_outcomes X S images)"
proof -
  obtain outs where
    s: "sweep X S (extract_region img region_start region_end)
          (List.product clahe_params
             (scale_factors (shape0 (extract_region img region_start region_end)))) = Inr outs"
    and r: "r = consensus U outs"
    using assms by (auto simp: extract_with_multiple_strategies_def Let_def split: sum.splits)
  show ?thesis using s r unfolding sweep_outcomes by blast
qed

text \<open>
  Claim C7.  The outcomes of the sweep are the answers of the engine for the enhanced image
  of every variant at every page-segmentation mode, in the order of the loops, whether or
  not other passes failed; the enhanced images do not depend on the engine.  So every
  remaining pass still runs and contributes what it read.  Replacing the outcome of one
  pass by a failure leaves the candidates of all passes before and after it, in their
  order, and selects what the sweep without that pass selects.  What the extraction
  returns is the consensus of these outcomes.
\<close>

theorem failed_pass_is_swallowed:
  assumes "i < length outcomes"
  shows "collect_candidates U (outcomes[i := Inl e])
           = collect_candidates U (take i outcomes) @ collect_candidates U (drop (Suc i) outcomes)
         \<and> consensus U (outcomes[i := Inl e])
             = consensus U (take i outcomes @ drop (Suc i) outcomes)
         \<and> (sweep X S region variants = Inr outs)
             = (\<exists>images. variant_images X region variants = map Inr images
                         \<and> outs = pass_outcomes X S images)
         \<and> variant_images (X\<lparr>x_ocr := f\<rparr>) region variants = variant_images X region variants
         \<and> length (pass_outcomes X S enhanced) = length psm_modes * length enhanced
         \<and> (\<forall>k j. k < length enhanced \<and> j < length psm_modes
               \<longrightarrow> pass_outcomes X S enhanced ! (k * length psm_modes + j)
                     = x_ocr X (enhanced ! k) (tesseract_lang S) (psm_modes ! j))
         \<and> (extract_with_multiple_strategies X U S img region_start region_end = Inr r
               \<longrightarrow> (\<exists>images.
                      variant_images X (extract_region img region_start region_end)
                        (List.product clahe_params
                           (scale_factors (shape0 (extract_region img region_start region_end))))
                        = map Inr images
                      \<and> r = consensus U (pass_outcomes X S images)))"
proof -
  have 1: "collect_candidates U (outcomes[i := Inl e])
             = collect_candidates U (take i outcomes @ drop (Suc i) outcomes)"
    using collect_candidates_failed [OF assms] by (simp add: collect_candidates_append)
  then have 2: "consensus U (outcomes[i := Inl e])
                  = consensus U (take i outcomes @ drop (Suc i) outcomes)"
    by (simp add: consensus_def)
  have 6: "\<forall>k j. k < length enhanced \<and> j < length psm_modes
               \<longrightarrow> pass_outcomes X S enhanced ! (k * length psm_modes + j)
                     = x_ocr X (enhanced ! k) (tesseract_lang S) (psm_modes ! j)"
    using pass_outcomes_nth by blast
  have 7: "extract_with_multiple_strategies X U S img region_start region_end = Inr r
               \<longrightarrow> (\<exists>images.
                      variant_images X (extract_region img region_start region_end)
                        (List.product clahe_params
                           (scale_factors (shape0 (extract_region img region_start region_end))))
                        = map Inr images
                      \<and> r = consensus U (pass_outcomes X S images))"
    using extract_with_multiple_strategies_outcomes by blast
  show ?thesis
    using collect_candidates_failed [OF assms] 2
      sweep_outcomes [where X = X and S = S and region = region and variants = variants
                        and outs = outs]
      variant_images_ocr [where X = X and f = f and region = region and variants = variants]
      length_pass_outcomes [where X = X and S = S and images = enhanced] 6 7
    by blast
qed

lemma map_Inr_images:
  "(\<And>v. v \<in> set vs \<Longrightarrow> \<exists>y. g v = Inr y)
     \<Longrightarrow> \<exists>ys. map g vs = map Inr ys \<and> length ys = length vs"
proof (induction vs)
  case Nil
  show ?case by simp
next
  case (Cons v vs)
  obtain y where y: "g v = Inr y" using Cons.prems by auto
  obtain ys where "map g vs = map Inr ys" "length ys = length vs"
    using Cons.IH Cons.prems by auto
  then have "map g (v # vs) = map Inr (y # ys) \<and> length (y # ys) = length (v # vs)"
    using y by simp
  then show ?case by blast
qed

lemma pass_outcomes_same_answers:
  assumes "\<And>img psm. x_ocr X img (tesseract_lang S) psm = g psm"
  shows "pass_outcomes X S images = concat (replicate (length images) (map g psm_modes))"
  by (induction images) (simp_all add: pass_outcomes_def assms)

lemma flaky_variant_images:
  "\<exists>images. variant_images flaky_extern (extract_region sample_image (1 / 2) (3 / 4))
               (List.product clahe_params (scale_factors 4)) = map Inr images
            \<and> length images = 12"
proof -
  define region where "region = extract_region sample_image (1 / 2) (3 / 4)"
  have sh: "shape0 region = 4" "shape1 region = 1"
    by (simp_all add: region_def sample_region shape0_def shape1_def)
  have ok: "\<exists>enhanced. variant_image flaky_extern region (fst (fst v)) (snd (fst v)) (snd v)
                          = Inr enhanced"
    if "v \<in> set (List.product clahe_params (scale_factors 4))" for v
  proof -
    have sc: "snd v = 2 \<or> snd v = 5 / 2 \<or> snd v = 3"
      using that by (auto simp: scale_factors_def)
    have p0: "0 < py_int (float_mul (int_to_float (int (shape0 region))) (snd v))"
      unfolding sh using sc by (elim disjE) (simp_all only: sample_scaled_sizes of_nat_numeral)
    have p1: "0 < py_int (float_mul (int_to_float (int (shape1 region))) (snd v))"
      unfolding sh using sc by (elim disjE) (simp_all only: sample_scaled_sizes of_nat_1)
    show ?thesis
      by (rule variant_image_succeeds [OF _ _ p0 p1])
         (simp_all add: sh to_gray_def flaky_extern_def sample_extern_def)
  qed
  have "\<exists>images. map (\<lambda>v. variant_image flaky_extern region (fst (fst v)) (snd (fst v)) (snd v))
                     (List.product clahe_params (scale_factors 4)) = map Inr images
                 \<and> length images = length (List.product clahe_params (scale_factors 4))"
    by (rule map_Inr_images) (rule ok)
  moreover have "length (List.product clahe_params (scale_factors 4)) = 12"
    by (simp add: clahe_params_def scale_factors_def)
  ultimately show ?thesis by (simp add: variant_images_def region_def)
qed

lemma flaky_consensus:
  "consensus ascii_db
     (concat (replicate 12 [Inl TesseractError, Inr sample_text, Inr sample_text]))
     = Some (str ''WP1ZZZ9PZ9LA42290'')"
  by code_simp

lemma flaky_answers:
  "x_ocr flaky_extern img (tesseract_lang sample_settings) psm
     = (if psm = 3 then Inl TesseractError else Inr sample_text)"
  by (simp add: flaky_extern_def)

theorem failed_pass_is_swallowed_witness:
  "(1::nat) < length [Inr sample_text, Inr (str ''5YJSA1E26HF000337''), Inr sample_text]
   \<and> consensus ascii_db ([Inr sample_text, Inr (str ''5YJSA1E26HF000337''), Inr sample_text]
                           [1 := Inl TesseractError])
       = consensus ascii_db [Inr sample_text, Inr sample_text]
   \<and> (\<exists>images.
         length images = 12
         \<and> variant_images flaky_extern (extract_region sample_image (1 / 2) (3 / 4))
             (List.product clahe_params (scale_factors 4)) = map Inr images
         \<and> sweep flaky_extern sample_settings (extract_region sample_image (1 / 2) (3 / 4))
             (List.product clahe_params (scale_factors 4))
             = Inr (pass_outcomes flaky_extern sample_settings images)
         \<and> pass_outcomes flaky_extern sample_settings images ! 0 = Inl TesseractError
         \<and> pass_outcomes flaky_extern sample_settings images ! 1 = Inr sample_text
         \<and> consensus ascii_db (pass_outcomes flaky_extern sample_settings images)
             = Some (str ''WP1ZZZ9PZ9LA42290''))
   \<and> extract_body_number flaky_extern ascii_db sample_settings sample_image
       = Inr (Some (str ''WP1ZZZ9PZ9LA42290''))"
proof -
  have h: "(1::nat) < length [Inr sample_text, Inr (str ''5YJSA1E26HF000337''), Inr sample_text]"
    by simp
  obtain images where n: "length images = 12"
    and v: "variant_images flaky_extern (extract_region sample_image (1 / 2) (3 / 4))
              (List.product clahe_params (scale_factors 4)) = map Inr images"
    using flaky_variant_images by blast
  note t = failed_pass_is_swallowed
             [OF h, where U = ascii_db and e = TesseractError and X = flaky_extern
                and f = "x_ocr flaky_extern" and S = sample_settings
                and region = "extract_region sample_image (1 / 2) (3 / 4)"
                and variants = "List.product clahe_params (scale_factors 4)"
                and outs = "pass_outcomes flaky_extern sample_settings images"
                and enhanced = images and img = sample_image
                and region_start = "1 / 2" and region_end = "3 / 4" and r = None]
  have a: "consensus ascii_db ([Inr sample_text, Inr (str ''5YJSA1E26HF000337''), Inr sample_text]
                           [1 := Inl TesseractError])
       = consensus ascii_db [Inr sample_text, Inr sample_text]"
    using t by simp
  have b: "sweep flaky_extern sample_settings (extract_region sample_image (1 / 2) (3 / 4))
             (List.product clahe_params (scale_factors 4))
             = Inr (pass_outcomes flaky_extern sample_settings images)"
    using t v by blast
  have nth: "\<forall>k j. k < length images \<and> j < length psm_modes
               \<longrightarrow> pass_outcomes flaky_extern sample_settings images ! (k * length psm_modes + j)
                     = x_ocr flaky_extern (images ! k) (tesseract_lang sample_settings)
                         (psm_modes ! j)"
    using t by blast
  have c: "pass_outcomes flaky_extern sample_settings images ! 0 = Inl TesseractError"
    using nth [rule_format, of 0 0] n by (simp add: flaky_answers psm_modes_def)
  have d: "pass_outcomes flaky_extern sample_settings images ! 1 = Inr sample_text"
    using nth [rule_format, of 0 1] n by (simp add: flaky_answers psm_modes_def)
  have "pass_outcomes flaky_extern sample_settings images
          = concat (replicate (length images)
                      (map (\<lambda>psm. if psm = 3 then Inl TesseractError else Inr sample_text)
                           psm_modes))"
    by (rule pass_outcomes_same_answers) (rule flaky_answers)
  then have "pass_outcomes flaky_extern sample_settings images
          = concat (replicate 12 [Inl TesseractError, Inr sample_text, Inr sample_text])"
    by (simp add: n psm_modes_def)
  then have e: "consensus ascii_db (pass_outcomes flaky_extern sample_settings images)
             = Some (str ''WP1ZZZ9PZ9LA42290'')"
    by (simp only: flaky_consensus)
  have sh: "shape0 (extract_region sample_image (1 / 2) (3 / 4)) = 4"
    by (simp add: sample_region shape0_def)
  have w: "body_number_region_start sample_settings = 1 / 2"
    "body_number_region_end sample_settings = 3 / 4"
    by (simp_all add: sample_settings_def)
  have "extract_body_number flaky_extern ascii_db sample_settings sample_image
          = Inr (consensus ascii_db (pass_outcomes flaky_extern sample_settings images))"
    unfolding extract_body_number_def extract_with_multiple_strategies_def Let_def w sh b
    by simp
  then have g: "extract_body_number flaky_extern ascii_db sample_settings sample_image
          = Inr (Some (str ''WP1ZZZ9PZ9LA42290''))"
    by (simp only: e)
  show ?thesis using h a n v b c d e g by blast
qed

section \<open>Documents and batches: a failing document\<close>

lemma parse_document_unreadable:
  "x_imread X p = None \<Longrightarrow> parse_document X U S p = Inl (ValueError p)"
  by (simp add: parse_document_def)

lemma parse_document_file_name:
  "parse_document X U S p = Inr r \<Longrightarrow> file_name r = path_name p"
  by (auto simp: parse_document_def split: option.splits sum.splits)

lemma process_loop_printed:
  assumes "\<And>f e. f \<in> set files \<Longrightarrow> parse_document X U S f = Inl e
             \<Longrightarrow> x_print X (path_name f) e = None"
  shows "process_loop X U S (printed, results) files
     = Inr (printed @ concat (map (\<lambda>f. case parse_document X U S f of
                                            Inl e \<Rightarrow> [(path_name f, e)] | Inr r \<Rightarrow> []) files),
            results @ map (\<lambda>f. case parse_document X U S f of
                                  Inl e \<Rightarrow> empty_result (path_name f) | Inr r \<Rightarrow> r) files)"
  using assms
proof (induction files arbitrary: printed results)
  case Nil
  show ?case by simp
next
  case (Cons f files)
  show ?case
  proof (cases "parse_document X U S f")
    case (Inl e)
    then have p: "x_print X (path_name f) e = None" using Cons.prems by simp
    show ?thesis using Cons.IH Cons.prems Inl p by (simp add: process_step_def)
  next
    case (Inr r)
    show ?thesis using Cons.IH Cons.prems Inr by (simp add: process_step_def)
  qed
qed

lemma process_loop_print_raises:
  assumes "parse_document X U S f = Inl e" "x_print X (path_name f) e = Some raised"
  shows "process_loop X U S st (f # files) = Inl raised"
  using assms by (cases st) (simp add: process_step_def)

text \<open>
  As long as every message can be written, an unreadable image is fatal for its document
  only: the batch has one result for every file, in the order of the files and under their
  names; the result of an unreadable file has the three fields unset, and the failure is
  printed with the name of the file; every file that parses keeps its own result.
\<close>

lemma batch_continues_when_printed:
  assumes "\<And>f e. f \<in> set files \<Longrightarrow> parse_document X U S f = Inl e
             \<Longrightarrow> x_print X (path_name f) e = None"
  shows "\<exists>printed results.
           process_directory X U S files = Inr (printed, results)
           \<and> length results = length files
           \<and> map file_name results = map path_name files
           \<and> (\<forall>i. i < length files \<and> x_imread X (files ! i) = None
                 \<longrightarrow> results ! i = \<lparr>file_name = path_name (files ! i), reg_number = None,
                                     vin = None, body_number = None\<rparr>
                     \<and> (path_name (files ! i), ValueError (files ! i)) \<in> set printed)
           \<and> (\<forall>i r. i < length files \<and> parse_document X U S (files ! i) = Inr r
                 \<longrightarrow> results ! i = r)"
proof -
  define printed where
    "printed = concat (map (\<lambda>f. case parse_document X U S f of
                                   Inl e \<Rightarrow> [(path_name f, e)] | Inr r \<Rightarrow> []) files)"
  define results where
    "results = map (\<lambda>f. case parse_document X U S f of
                          Inl e \<Rightarrow> empty_result (path_name f) | Inr r \<Rightarrow> r) files"
  have p: "process_directory X U S files = Inr (printed, results)"
    using process_loop_printed [OF assms, where printed = "[]" and results = "[]"]
    by (simp add: process_directory_def printed_def results_def)
  have 2: "length results = length files" by (simp add: results_def)
  have 3: "map file_name results = map path_name files"
    by (auto simp: results_def empty_result_def parse_document_file_name split: sum.splits)
  have 4: "results ! i = \<lparr>file_name = path_name (files ! i), reg_number = None,
                            vin = None, body_number = None\<rparr>
           \<and> (path_name (files ! i), ValueError (files ! i)) \<in> set printed"
    if i: "i < length files" and n: "x_imread X (files ! i) = None" for i
  proof -
    have pd: "parse_document X U S (files ! i) = Inl (ValueError (files ! i))"
      using n by (rule parse_document_unreadable)
    have a: "results ! i = \<lparr>file_name = path_name (files ! i), reg_number = None,
                              vin = None, body_number = None\<rparr>"
      using i by (simp add: results_def pd empty_result_def)
    have "files ! i \<in> set files" using i by simp
    then have b: "(path_name (files ! i), ValueError (files ! i)) \<in> set printed"
      unfolding printed_def using pd by (force split: sum.splits)
    show ?thesis using a b by simp
  qed
  have 5: "results ! i = r"
    if "i < length files" "parse_document X U S (files ! i) = Inr r" for i r
    using that by (simp add: results_def)
  show ?thesis using p 2 3 4 5 by blast
qed

lemma sample_reg_number:
  "extract_reg_number sample_extern ascii_db sample_settings sample_image = Inr None"
  by code_simp

lemma sample_parse:
  "parse_document sample_extern ascii_db sample_settings [str ''scans'', str ''sts.png'']
     = Inr \<lparr>file_name = str ''sts.png'', reg_number = None,
            vin = Some (str ''WP1ZZZ9PZ9LA42290''),
            body_number = Some (str ''WP1ZZZ9PZ9LA42290'')\<rparr>"
proof -
  have "x_imread sample_extern [str ''scans'', str ''sts.png''] = Some sample_image"
    by (simp add: sample_extern_def)
  then show ?thesis
    by (simp add: parse_document_def sample_reg_number sample_extraction path_name_def)
qed

lemma sample_unreadable:
  "parse_document sample_extern ascii_db sample_settings [str ''scans'', 56575 # str ''.png'']
     = Inl (ValueError [str ''scans'', 56575 # str ''.png''])"
  "parse_document sample_extern ascii_db sample_settings [str ''scans'', str ''bad.png'']
     = Inl (ValueError [str ''scans'', str ''bad.png''])"
  by (rule parse_document_unreadable, simp add: sample_extern_def str_def)+

lemma sample_prints:
  "x_print sample_extern (56575 # str ''.png'') (ValueError [str ''scans'', 56575 # str ''.png''])
     = Some UnicodeEncodeError"
  "x_print sample_extern (str ''bad.png'') (ValueError [str ''scans'', str ''bad.png'']) = None"
  by (simp_all add: sample_extern_def utf8_print_def has_surrogate_def str_def)

text \<open>
  Claim C8 at a batch of an unreadable file and a readable one.  On a standard output that
  cannot encode the message (an ASCII output for any file, a UTF-8 output for a file whose
  name holds a surrogate), the \<^verbatim>\<open>print\<close> in the handler raises, the exception leaves
  \<open>process_directory\<close> and the batch has no results at all: the failure of one document
  halts the batch.  On an output that takes the message the same batch continues: the
  unreadable file has a result with the three fields unset and the readable one its own.
\<close>

theorem unprintable_failure_halts_batch:
  "process_directory (sample_extern\<lparr>x_print := ascii_print\<rparr>) ascii_db sample_settings
     [[str ''scans'', str ''bad.png''], [str ''scans'', str ''sts.png'']]
     = Inl UnicodeEncodeError
   \<and> process_directory sample_extern ascii_db sample_settings
     [[str ''scans'', 56575 # str ''.png''], [str ''scans'', str ''sts.png'']]
     = Inl UnicodeEncodeError
   \<and> process_directory sample_extern ascii_db sample_settings
       [[str ''scans'', str ''bad.png''], [str ''scans'', str ''sts.png'']]
     = Inr ([(str ''bad.png'', ValueError [str ''scans'', str ''bad.png''])],
            [\<lparr>file_name = str ''bad.png'', reg_number = None, vin = None, body_number = None\<rparr>,
             \<lparr>file_name = str ''sts.png'', reg_number = None,
                vin = Some (str ''WP1ZZZ9PZ9LA42290''),
                body_number = Some (str ''WP1ZZZ9PZ9LA42290'')\<rparr>])"
proof -
  have n: "path_name [str ''scans'', 56575 # str ''.png''] = 56575 # str ''.png''"
    "path_name [str ''scans'', str ''bad.png''] = str ''bad.png''"
    by (simp_all add: path_name_def)
  have 1: "process_directory sample_extern ascii_db sample_settings
     [[str ''scans'', 56575 # str ''.png''], [str ''scans'', str ''sts.png'']]
     = Inl UnicodeEncodeError"
    unfolding process_directory_def
    by (rule process_loop_print_raises [OF sample_unreadable(1)]) (simp add: n sample_prints)
  have 2: "process_directory sample_extern ascii_db sample_settings
       [[str ''scans'', str ''bad.png''], [str ''scans'', str ''sts.png'']]
     = Inr ([(str ''bad.png'', ValueError [str ''scans'', str ''bad.png''])],
            [\<lparr>file_name = str ''bad.png'', reg_number = None, vin = None, body_number = None\<rparr>,
             \<lparr>file_name = str ''sts.png'', reg_number = None,
                vin = Some (str ''WP1ZZZ9PZ9LA42290''),
                body_number = Some (str ''WP1ZZZ9PZ9LA42290'')\<rparr>])"
    by (simp add: process_directory_def process_step_def sample_unreadable(2) sample_parse
          n sample_prints empty_result_def)
  have "parse_document (sample_extern\<lparr>x_print := ascii_print\<rparr>) ascii_db sample_settings
          [str ''scans'', str ''bad.png'']
        = Inl (ValueError [str ''scans'', str ''bad.png''])"
    by (rule parse_document_unreadable) (simp add: sample_extern_def str_def)
  then have 0: "process_directory (sample_extern\<lparr>x_print := ascii_print\<rparr>) ascii_db
       sample_settings [[str ''scans'', str ''bad.png''], [str ''scans'', str ''sts.png'']]
     = Inl UnicodeEncodeError"
    unfolding process_directory_def
    by (rule process_loop_print_raises) (simp add: ascii_print_def)
  show ?thesis using 0 1 2 by simp
qed

end
